theory Spec2Isabelle
  imports Complex_Main "HOL-Library.Word" "HOL-Library.Multiset"
begin

section \<open>Data model (execution\_engine.hpp)\<close>

text \<open>
  The C++ \<^verbatim>\<open>int\<close> is a 32-bit two's-complement integer, modelled as \<open>32 word\<close>:
  \<open>+\<close> and \<open>-\<close> wrap around (the wrap-around is what the hardware does where the
  C++ standard leaves signed overflow undefined), \<open>sint\<close> reads the signed value and
  \<open><s\<close> is the signed comparison.
\<close>

type_synonym cint = "32 word"

text \<open>
  A \<^verbatim>\<open>double\<close> is a real number, one of the two infinities, or NaN.  On numbers the
  arithmetic is exact: rounding, overflow and underflow are not modelled, and the two
  zeros are one number (the sign of a zero shows only in a division by it, and the
  program divides by \<^verbatim>\<open>2.0\<close> and by converted \<^verbatim>\<open>int\<close>s only, whose zero is the
  positive one).  Otherwise the operations are those of IEEE 754: an operation with a
  NaN operand gives NaN; the difference of equal infinities, the product of zero and an
  infinity, zero divided by zero and an infinity divided by an infinity are NaN; a
  number other than zero divided by zero is the infinity of its sign; and every
  comparison with a NaN operand is false.  In the functions below the clauses are read
  in order, a later clause applying where no earlier one does.
\<close>

datatype double = Finite real | PInf | NInf | NaN

fun dneg :: "double \<Rightarrow> double" where
  "dneg (Finite x) = Finite (- x)"
| "dneg PInf = NInf"
| "dneg NInf = PInf"
| "dneg NaN = NaN"

fun dadd :: "double \<Rightarrow> double \<Rightarrow> double" where
  "dadd (Finite x) (Finite y) = Finite (x + y)"
| "dadd NaN _ = NaN"
| "dadd _ NaN = NaN"
| "dadd PInf NInf = NaN"
| "dadd NInf PInf = NaN"
| "dadd PInf _ = PInf"
| "dadd _ PInf = PInf"
| "dadd NInf _ = NInf"
| "dadd _ NInf = NInf"

definition dsub :: "double \<Rightarrow> double \<Rightarrow> double" where
  "dsub a b = dadd a (dneg b)"

text \<open>The infinity of the sign of \<open>s\<close>, and NaN for zero: the product of the positive
  infinity and the number \<open>s\<close>, and the quotient of the number \<open>s\<close> and zero.\<close>

definition infinity_of_sign :: "real \<Rightarrow> double" where
  "infinity_of_sign s = (if s = 0 then NaN else if 0 < s then PInf else NInf)"

fun dmul :: "double \<Rightarrow> double \<Rightarrow> double" where
  "dmul (Finite x) (Finite y) = Finite (x * y)"
| "dmul NaN _ = NaN"
| "dmul _ NaN = NaN"
| "dmul (Finite x) PInf = infinity_of_sign x"
| "dmul (Finite x) NInf = infinity_of_sign (- x)"
| "dmul PInf (Finite y) = infinity_of_sign y"
| "dmul NInf (Finite y) = infinity_of_sign (- y)"
| "dmul PInf PInf = PInf"
| "dmul PInf NInf = NInf"
| "dmul NInf PInf = NInf"
| "dmul NInf NInf = PInf"

fun ddiv :: "double \<Rightarrow> double \<Rightarrow> double" where
  "ddiv (Finite x) (Finite y) = (if y = 0 then infinity_of_sign x else Finite (x / y))"
| "ddiv NaN _ = NaN"
| "ddiv _ NaN = NaN"
| "ddiv (Finite x) _ = Finite 0"
| "ddiv PInf (Finite y) = (if 0 \<le> y then PInf else NInf)"
| "ddiv NInf (Finite y) = (if 0 \<le> y then NInf else PInf)"
| "ddiv _ _ = NaN"

text \<open>The comparisons \<^verbatim>\<open><\<close>, \<^verbatim>\<open>>\<close> and \<^verbatim>\<open>>=\<close> of two doubles.\<close>

fun dless :: "double \<Rightarrow> double \<Rightarrow> bool" where
  "dless (Finite x) (Finite y) = (x < y)"
| "dless NaN _ = False"
| "dless _ NaN = False"
| "dless _ NInf = False"
| "dless PInf _ = False"
| "dless _ _ = True"

definition dgreater :: "double \<Rightarrow> double \<Rightarrow> bool" where
  "dgreater a b = dless b a"

fun dge :: "double \<Rightarrow> double \<Rightarrow> bool" where
  "dge (Finite x) (Finite y) = (x \<ge> y)"
| "dge NaN _ = False"
| "dge _ NaN = False"
| "dge PInf _ = True"
| "dge _ NInf = True"
| "dge _ _ = False"

text \<open>The conversion of an \<^verbatim>\<open>int\<close> to \<^verbatim>\<open>double\<close>, which is exact.\<close>

definition double_of_int :: "cint \<Rightarrow> double" where
  "double_of_int i = Finite (real_of_int (sint i))"

record Order =
  order_id :: string
  symbol :: string
  price :: double
  quantity :: cint
  is_buy :: bool

record Trade =
  trade_order_id :: string
  trade_symbol :: string
  trade_price :: double
  trade_quantity :: cint
  trade_timestamp :: string

text \<open>\<^verbatim>\<open>OrderBook::OrderCompare\<close>: the comparator of both priority queues. It looks
  at the price only, and at the side of its first argument.  With a NaN price on either
  side it is false.\<close>

definition OrderCompare :: "Order \<Rightarrow> Order \<Rightarrow> bool" where
  "OrderCompare a b =
     (if is_buy a then dless (price a) (price b) else dgreater (price a) (price b))"

section \<open>std::priority\_queue over std::vector\<close>

text \<open>
  \<^verbatim>\<open>std::priority_queue<Order, std::vector<Order>, OrderCompare>\<close> is part of the
  C++ standard library, not of the repository.  The standard fixes its interface
  (\<^verbatim>\<open>top\<close> is the front of the vector, \<^verbatim>\<open>push\<close> is \<^verbatim>\<open>push_back\<close> followed
  by \<^verbatim>\<open>push_heap\<close>, \<^verbatim>\<open>pop\<close> is \<^verbatim>\<open>pop_heap\<close> followed by \<^verbatim>\<open>pop_back\<close>) and
  leaves the order of elements that compare equal to the implementation.  The
  functions below follow the binary-heap algorithms of GNU libstdc++
  (bits/stl\_heap.h), the vector being a list and iterators being indices.
\<close>

text \<open>\<^verbatim>\<open>__push_heap(first, holeIndex, topIndex, value, cmp)\<close>: move the hole up while
  the parent compares less than the value, then store the value.\<close>

function push_heap_impl :: "('a \<Rightarrow> 'a \<Rightarrow> bool) \<Rightarrow> 'a list \<Rightarrow> nat \<Rightarrow> nat \<Rightarrow> 'a \<Rightarrow> 'a list" where
  "push_heap_impl cmp xs holeIndex topIndex v =
     (let parent = (holeIndex - 1) div 2 in
      if holeIndex > topIndex \<and> cmp (xs ! parent) v
      then push_heap_impl cmp (xs[holeIndex := xs ! parent]) parent topIndex v
      else xs[holeIndex := v])"
  by pat_completeness auto
termination
  by (relation "measure (\<lambda>(cmp, xs, holeIndex, topIndex, v). holeIndex)") auto

declare push_heap_impl.simps [simp del]

text \<open>\<^verbatim>\<open>push_heap(first, last, cmp)\<close>: the value is the last element.\<close>

definition push_heap :: "('a \<Rightarrow> 'a \<Rightarrow> bool) \<Rightarrow> 'a list \<Rightarrow> 'a list" where
  "push_heap cmp xs = push_heap_impl cmp xs (length xs - 1) 0 (xs ! (length xs - 1))"

text \<open>The \<^verbatim>\<open>while\<close> loop of \<^verbatim>\<open>__adjust_heap\<close>: the hole moves down to the larger
  child (the right one on a tie) as long as it has two children.  In the C++ the
  variables \<^verbatim>\<open>holeIndex\<close> and \<^verbatim>\<open>secondChild\<close> are equal at every test of the loop
  condition, so the model keeps one index.\<close>

function adjust_heap_loop :: "('a \<Rightarrow> 'a \<Rightarrow> bool) \<Rightarrow> nat \<Rightarrow> 'a list \<Rightarrow> nat \<Rightarrow> 'a list \<times> nat" where
  "adjust_heap_loop cmp len xs holeIndex =
     (if holeIndex < (len - 1) div 2 then
        (let right = 2 * (holeIndex + 1);
             secondChild = (if cmp (xs ! right) (xs ! (right - 1)) then right - 1 else right)
         in adjust_heap_loop cmp len (xs[holeIndex := xs ! secondChild]) secondChild)
      else (xs, holeIndex))"
  by pat_completeness auto
termination
  by (relation "measure (\<lambda>(cmp, len, xs, holeIndex). len - holeIndex)") auto

declare adjust_heap_loop.simps [simp del]

text \<open>\<^verbatim>\<open>__adjust_heap(first, holeIndex, len, value, cmp)\<close>: after the loop, a hole whose
  only child is the last element of an even-length range takes that child; then the
  value is pushed up from the hole, no further than the starting index.\<close>

definition adjust_heap :: "('a \<Rightarrow> 'a \<Rightarrow> bool) \<Rightarrow> 'a list \<Rightarrow> nat \<Rightarrow> nat \<Rightarrow> 'a \<Rightarrow> 'a list" where
  "adjust_heap cmp xs holeIndex len v =
     (case adjust_heap_loop cmp len xs holeIndex of
        (ys, secondChild) \<Rightarrow>
          if even len \<and> secondChild = (len - 2) div 2
          then push_heap_impl cmp (ys[secondChild := ys ! (2 * (secondChild + 1) - 1)])
                 (2 * (secondChild + 1) - 1) holeIndex v
          else push_heap_impl cmp ys secondChild holeIndex v)"

text \<open>\<^verbatim>\<open>pop_heap(first, last, cmp)\<close>: with more than one element, the last element is
  saved as the value, the first element is stored in the last place, and the range
  without the last place is adjusted from the root (\<^verbatim>\<open>__pop_heap\<close>).\<close>

definition pop_heap :: "('a \<Rightarrow> 'a \<Rightarrow> bool) \<Rightarrow> 'a list \<Rightarrow> 'a list" where
  "pop_heap cmp xs =
     (if length xs > 1 then
        (let last_index = length xs - 1;
             v = xs ! last_index
         in adjust_heap cmp (xs[last_index := xs ! 0]) 0 last_index v)
      else xs)"

text \<open>The three operations of the priority queue the order book uses.  \<^verbatim>\<open>top\<close> and
  \<^verbatim>\<open>pop\<close> on an empty queue are undefined behaviour in C++; the order book calls
  them on non-empty queues only, and every statement below about them has the queue
  non-empty.\<close>

definition pq_push :: "('a \<Rightarrow> 'a \<Rightarrow> bool) \<Rightarrow> 'a list \<Rightarrow> 'a \<Rightarrow> 'a list" where
  "pq_push cmp c x = push_heap cmp (c @ [x])"

definition pq_pop :: "('a \<Rightarrow> 'a \<Rightarrow> bool) \<Rightarrow> 'a list \<Rightarrow> 'a list" where
  "pq_pop cmp c = butlast (pop_heap cmp c)"

definition pq_top :: "'a list \<Rightarrow> 'a" where
  "pq_top c = hd c"

section \<open>OrderBook (execution\_engine.cpp, lines 65--139)\<close>

text \<open>
  The class \<^verbatim>\<open>OrderBook\<close>.  A member whose C++ name ends in an underscore
  (\<^verbatim>\<open>position_\<close>) has a prime in its place here (\<open>position'\<close>), since a name
  cannot end in an underscore in Isabelle.  \<^verbatim>\<open>book_mutex\<close> is a \<^verbatim>\<open>std::mutex\<close>, which is not
  recursive; the model keeps whether it is held.  Locking a \<^verbatim>\<open>std::mutex\<close> that the
  calling thread holds is undefined behaviour in C++, and with the usual
  implementations the call blocks for ever: a method whose \<^verbatim>\<open>std::lock_guard\<close> meets
  a held mutex has the result \<open>None\<close>, it does not return.  Otherwise the guard holds
  the mutex during the body and releases it at the end of the method.
\<close>

record OrderBook =
  symbol' :: string
  buy_orders :: "Order list"
  sell_orders :: "Order list"
  position' :: cint
  average_price' :: double
  realized_pnl' :: double
  book_mutex :: bool

text \<open>The constructor \<^verbatim>\<open>OrderBook(const std::string& symbol)\<close>.\<close>

definition new_OrderBook :: "string \<Rightarrow> OrderBook" where
  "new_OrderBook s =
     \<lparr>symbol' = s, buy_orders = [], sell_orders = [], position' = 0,
      average_price' = Finite 0, realized_pnl' = Finite 0, book_mutex = False\<rparr>"

text \<open>The condition under which the loop of \<^verbatim>\<open>match_orders\<close> runs its body: both
  queues non-empty (line 76) and \<^verbatim>\<open>buy.price >= sell.price\<close> for the two top orders
  (line 80), which is false when one of the two prices is NaN.\<close>

definition crossing :: "OrderBook \<Rightarrow> bool" where
  "crossing b \<longleftrightarrow>
     buy_orders b \<noteq> [] \<and> sell_orders b \<noteq> [] \<and>
     dge (price (pq_top (buy_orders b))) (price (pq_top (sell_orders b)))"

text \<open>Line 81: \<^verbatim>\<open>std::min(buy.quantity, sell.quantity)\<close>, which returns its second
  argument when that is less than the first, and its first argument otherwise.\<close>

definition matched_quantity :: "OrderBook \<Rightarrow> cint" where
  "matched_quantity b =
     (let bq = quantity (pq_top (buy_orders b)); sq = quantity (pq_top (sell_orders b))
      in if sq <s bq then sq else bq)"

text \<open>Line 82.\<close>

definition matched_price :: "OrderBook \<Rightarrow> double" where
  "matched_price b =
     ddiv (dadd (price (pq_top (buy_orders b))) (price (pq_top (sell_orders b)))) (Finite 2)"

text \<open>Lines 85--89 for the buy side and 91--95 for the sell side: the top order is
  popped when its quantity equals the matched quantity, and has its quantity reduced
  in place (through the \<^verbatim>\<open>const_cast\<close>) otherwise.\<close>

definition fill_top :: "Order list \<Rightarrow> cint \<Rightarrow> Order list" where
  "fill_top c mq =
     (if quantity (pq_top c) = mq then pq_pop OrderCompare c
      else c[0 := (c ! 0)\<lparr>quantity := quantity (c ! 0) - mq\<rparr>])"

text \<open>Lines 81--103, one pass through the body of the loop.  The position is
  incremented first (line 97), so \<^verbatim>\<open>old_value\<close> (line 98) and the denominator (line
  100) read the incremented position, and the realized P\&L (line 103) reads the
  average price assigned in line 100.\<close>

definition match_step :: "OrderBook \<Rightarrow> OrderBook" where
  "match_step b =
     (let mq = matched_quantity b;
          mp = matched_price b;
          buys = fill_top (buy_orders b) mq;
          sells = fill_top (sell_orders b) mq;
          pos = position' b + mq;
          old_value = dmul (average_price' b) (double_of_int pos);
          new_value = dmul mp (double_of_int mq);
          avg = ddiv (dadd old_value new_value) (double_of_int (pos + mq))
      in b\<lparr>buy_orders := buys, sell_orders := sells, position' := pos,
            average_price' := avg,
            realized_pnl' := dadd (realized_pnl' b) (dmul (dsub mp avg) (double_of_int mq))\<rparr>)"

text \<open>\<^verbatim>\<open>OrderBook::match_orders\<close>: the loop.  Every pass pops at least one queue,
  because the matched quantity is the quantity of one of the two top orders; this is
  the termination argument.\<close>

function match_orders :: "OrderBook \<Rightarrow> OrderBook" where
  "match_orders b = (if crossing b then match_orders (match_step b) else b)"
  by pat_completeness auto
termination
proof (relation "measure (\<lambda>b. length (buy_orders b) + length (sell_orders b))")
  show "wf (measure (\<lambda>b. length (buy_orders b) + length (sell_orders b)))"
    by simp
next
  fix b :: OrderBook
  assume cr: "crossing b"
  have push_len: "length (push_heap_impl cmp xs h t v) = length xs"
    for cmp :: "Order \<Rightarrow> Order \<Rightarrow> bool" and xs h t v
    by (induction cmp xs h t v rule: push_heap_impl.induct)
      (subst push_heap_impl.simps, simp add: Let_def)
  have loop_len: "length (fst (adjust_heap_loop cmp n xs h)) = length xs"
    for cmp :: "Order \<Rightarrow> Order \<Rightarrow> bool" and n xs h
    by (induction cmp n xs h rule: adjust_heap_loop.induct)
      (subst adjust_heap_loop.simps, simp add: Let_def)
  have adjust_len: "length (adjust_heap cmp xs h n v) = length xs"
    for cmp :: "Order \<Rightarrow> Order \<Rightarrow> bool" and xs h n v
    using loop_len[of cmp n xs h]
    by (cases "adjust_heap_loop cmp n xs h") (simp add: adjust_heap_def push_len)
  have pop_len: "length (pq_pop OrderCompare c) = length c - 1" for c
    by (simp add: pq_pop_def pop_heap_def adjust_len Let_def)
  have fill_le: "length (fill_top c mq) \<le> length c" for c mq
    by (simp add: fill_top_def pop_len)
  have fill_less: "c \<noteq> [] \<Longrightarrow> quantity (pq_top c) = mq \<Longrightarrow> length (fill_top c mq) < length c"
    for c mq
    by (simp add: fill_top_def pop_len)
  let ?mq = "matched_quantity b"
  have ne: "buy_orders b \<noteq> []" "sell_orders b \<noteq> []"
    using cr by (simp_all add: crossing_def)
  have one: "quantity (pq_top (buy_orders b)) = ?mq \<or> quantity (pq_top (sell_orders b)) = ?mq"
    by (simp add: matched_quantity_def Let_def)
  have "length (fill_top (buy_orders b) ?mq) + length (fill_top (sell_orders b) ?mq)
        < length (buy_orders b) + length (sell_orders b)"
    using one fill_less[OF ne(1), of ?mq] fill_less[OF ne(2), of ?mq]
      fill_le[of "buy_orders b" ?mq] fill_le[of "sell_orders b" ?mq]
    by linarith
  then show "(match_step b, b) \<in> measure (\<lambda>b. length (buy_orders b) + length (sell_orders b))"
    by (simp add: match_step_def Let_def)
qed

declare match_orders.simps [simp del]

text \<open>\<^verbatim>\<open>OrderBook::add_order\<close>.\<close>

definition add_order :: "Order \<Rightarrow> OrderBook \<Rightarrow> OrderBook option" where
  "add_order order b =
     (if book_mutex b then None
      else
        (let b1 = b\<lparr>book_mutex := True\<rparr>;
             b2 = (if is_buy order
                   then b1\<lparr>buy_orders := pq_push OrderCompare (buy_orders b1) order\<rparr>
                   else b1\<lparr>sell_orders := pq_push OrderCompare (sell_orders b1) order\<rparr>);
             b3 = match_orders b2
         in Some (b3\<lparr>book_mutex := False\<rparr>)))"

text \<open>A sequence of \<^verbatim>\<open>add_order\<close> calls on one book.\<close>

fun add_orders :: "Order list \<Rightarrow> OrderBook \<Rightarrow> OrderBook option" where
  "add_orders [] b = Some b"
| "add_orders (order # orders) b =
     (case add_order order b of None \<Rightarrow> None | Some b' \<Rightarrow> add_orders orders b')"

text \<open>The accessors (lines 110--139).  Each takes the lock.\<close>

definition get_best_bid :: "OrderBook \<Rightarrow> double option" where
  "get_best_bid b =
     (if book_mutex b then None
      else Some (if buy_orders b = [] then Finite 0 else price (pq_top (buy_orders b))))"

definition get_best_ask :: "OrderBook \<Rightarrow> double option" where
  "get_best_ask b =
     (if book_mutex b then None
      else Some (if sell_orders b = [] then Finite 0 else price (pq_top (sell_orders b))))"

definition get_position :: "OrderBook \<Rightarrow> cint option" where
  "get_position b = (if book_mutex b then None else Some (position' b))"

definition get_average_price :: "OrderBook \<Rightarrow> double option" where
  "get_average_price b = (if book_mutex b then None else Some (average_price' b))"

definition get_realized_pnl :: "OrderBook \<Rightarrow> double option" where
  "get_realized_pnl b = (if book_mutex b then None else Some (realized_pnl' b))"

text \<open>Lines 132--133 of \<^verbatim>\<open>get_unrealized_pnl\<close>, on the two prices read.\<close>

definition unrealized_pnl_of :: "double \<Rightarrow> double \<Rightarrow> OrderBook \<Rightarrow> double" where
  "unrealized_pnl_of bid ask b =
     (let mid_price = ddiv (dadd bid ask) (Finite 2)
      in dmul (double_of_int (position' b)) (dsub mid_price (average_price' b)))"

text \<open>\<^verbatim>\<open>OrderBook::get_unrealized_pnl\<close> takes the lock (line 131) and then calls the
  public accessors \<^verbatim>\<open>get_best_bid\<close> and \<^verbatim>\<open>get_best_ask\<close> (line 132), which take the
  same lock.\<close>

definition get_unrealized_pnl :: "OrderBook \<Rightarrow> double option" where
  "get_unrealized_pnl b =
     (if book_mutex b then None
      else
        (let b1 = b\<lparr>book_mutex := True\<rparr> in
         case get_best_bid b1 of
           None \<Rightarrow> None
         | Some bid \<Rightarrow>
             (case get_best_ask b1 of
                None \<Rightarrow> None
              | Some ask \<Rightarrow> Some (unrealized_pnl_of bid ask b1))))"

section \<open>ExecutionEngine (execution\_engine.cpp, lines 44--61 and 141--235)\<close>

text \<open>
  \<^verbatim>\<open>generate_order_id\<close> draws hexadecimal digits from a generator that lives for the
  whole process.  The generator is modelled by the sequence of numbers it will return:
  \<open>g k\<close> is the \<open>k\<close>-th draw of \<^verbatim>\<open>dis(gen)\<close>, read modulo 16 since the distribution is
  uniform on 0..15.  The loop runs \<open>i\<close> from 0 to 35 and puts a dash at the positions 8,
  13, 18 and 23; \<open>k\<close> counts the draws made.
\<close>

type_synonym rng = "nat \<Rightarrow> nat"

definition digits :: string where
  "digits = ''0123456789abcdef''"

function generate_order_id_loop :: "rng \<Rightarrow> nat \<Rightarrow> nat \<Rightarrow> string \<Rightarrow> string \<times> nat" where
  "generate_order_id_loop g i k uuid =
     (if i < 36 then
        (if i = 8 \<or> i = 13 \<or> i = 18 \<or> i = 23
         then generate_order_id_loop g (i + 1) k (uuid @ ''-'')
         else generate_order_id_loop g (i + 1) (k + 1) (uuid @ [digits ! (g k mod 16)]))
      else (uuid, k))"
  by pat_completeness auto
termination
  by (relation "measure (\<lambda>(g, i, k, uuid). 36 - i)") auto

declare generate_order_id_loop.simps [simp del]

definition generate_order_id :: "rng \<Rightarrow> string \<times> rng" where
  "generate_order_id g =
     (case generate_order_id_loop g 0 0 [] of (uuid, k) \<Rightarrow> (uuid, \<lambda>n. g (n + k)))"

text \<open>
  The class \<^verbatim>\<open>ExecutionEngine\<close>.  The callbacks are values of the types \<open>'m\<close> (market
  data) and \<open>'t\<close> (trades); the registries are maps from the symbol to the list of
  callbacks in subscription order.  \<^verbatim>\<open>engine_mutex\<close> is modelled as \<^verbatim>\<open>book_mutex\<close>
  is; no method of the engine calls a method of the engine while it holds the lock, so
  the methods below only test that it is free.  The market-data thread (\<^verbatim>\<open>start\<close>, \<^verbatim>\<open>stop\<close>, \<^verbatim>\<open>market_data_thread_func\<close>)
  is not modelled; it reads \<^verbatim>\<open>market_data_callbacks\<close> only.
\<close>

record ('m, 't) ExecutionEngine =
  running :: bool
  order_books :: "string \<rightharpoonup> OrderBook"
  market_data_callbacks :: "string \<rightharpoonup> 'm list"
  trade_callbacks :: "string \<rightharpoonup> 't list"
  engine_mutex :: bool

definition new_ExecutionEngine :: "('m, 't) ExecutionEngine" where
  "new_ExecutionEngine =
     \<lparr>running = False, order_books = Map.empty, market_data_callbacks = Map.empty,
      trade_callbacks = Map.empty, engine_mutex = False\<rparr>"

text \<open>\<^verbatim>\<open>ExecutionEngine::submit_order\<close>: \<^verbatim>\<open>try_emplace\<close> leaves an existing book in
  place and inserts a new book for the symbol otherwise; the order gets its generated id
  and goes to \<^verbatim>\<open>add_order\<close> of that book; the id is returned.  No callback is called
  and nothing else is done.\<close>

definition submit_order ::
  "Order \<Rightarrow> rng \<Rightarrow> ('m, 't) ExecutionEngine \<Rightarrow> (string \<times> rng \<times> ('m, 't) ExecutionEngine) option" where
  "submit_order order g e =
     (if engine_mutex e then None
      else
        (let book = (case order_books e (symbol order) of
                       None \<Rightarrow> new_OrderBook (symbol order)
                     | Some b \<Rightarrow> b);
             (oid, g') = generate_order_id g;
             order_with_id = order\<lparr>order_id := oid\<rparr>
         in case add_order order_with_id book of
              None \<Rightarrow> None
            | Some book' \<Rightarrow>
                Some (oid, g', e\<lparr>order_books := (order_books e)(symbol order \<mapsto> book')\<rparr>)))"

text \<open>The four registry operations (lines 193--211).\<close>

definition subscribe_market_data ::
  "string \<Rightarrow> 'm \<Rightarrow> ('m, 't) ExecutionEngine \<Rightarrow> ('m, 't) ExecutionEngine option" where
  "subscribe_market_data s callback e =
     (if engine_mutex e then None
      else Some (e\<lparr>market_data_callbacks := (market_data_callbacks e)
             (s \<mapsto> (case market_data_callbacks e s of None \<Rightarrow> [] | Some cs \<Rightarrow> cs) @ [callback])\<rparr>))"

definition unsubscribe_market_data ::
  "string \<Rightarrow> ('m, 't) ExecutionEngine \<Rightarrow> ('m, 't) ExecutionEngine option" where
  "unsubscribe_market_data s e =
     (if engine_mutex e then None
      else Some (e\<lparr>market_data_callbacks := (market_data_callbacks e)(s := None)\<rparr>))"

definition subscribe_trades ::
  "string \<Rightarrow> 't \<Rightarrow> ('m, 't) ExecutionEngine \<Rightarrow> ('m, 't) ExecutionEngine option" where
  "subscribe_trades s callback e =
     (if engine_mutex e then None
      else Some (e\<lparr>trade_callbacks := (trade_callbacks e)
             (s \<mapsto> (case trade_callbacks e s of None \<Rightarrow> [] | Some cs \<Rightarrow> cs) @ [callback])\<rparr>))"

definition unsubscribe_trades ::
  "string \<Rightarrow> ('m, 't) ExecutionEngine \<Rightarrow> ('m, 't) ExecutionEngine option" where
  "unsubscribe_trades s e =
     (if engine_mutex e then None
      else Some (e\<lparr>trade_callbacks := (trade_callbacks e)(s := None)\<rparr>))"

text \<open>The read queries of the engine (lines 213--235); the names carry the prefix
  \<open>engine\<close> since the accessors of the book have the same names in C++.\<close>

definition engine_get_position :: "('m, 't) ExecutionEngine \<Rightarrow> string \<Rightarrow> cint option" where
  "engine_get_position e s =
     (if engine_mutex e then None
      else case order_books e s of None \<Rightarrow> Some 0 | Some b \<Rightarrow> get_position b)"

definition engine_get_average_price :: "('m, 't) ExecutionEngine \<Rightarrow> string \<Rightarrow> double option" where
  "engine_get_average_price e s =
     (if engine_mutex e then None
      else case order_books e s of None \<Rightarrow> Some (Finite 0) | Some b \<Rightarrow> get_average_price b)"

definition engine_get_unrealized_pnl :: "('m, 't) ExecutionEngine \<Rightarrow> string \<Rightarrow> double option" where
  "engine_get_unrealized_pnl e s =
     (if engine_mutex e then None
      else case order_books e s of None \<Rightarrow> Some (Finite 0) | Some b \<Rightarrow> get_unrealized_pnl b)"

definition engine_get_realized_pnl :: "('m, 't) ExecutionEngine \<Rightarrow> string \<Rightarrow> double option" where
  "engine_get_realized_pnl e s =
     (if engine_mutex e then None
      else case order_books e s of None \<Rightarrow> Some (Finite 0) | Some b \<Rightarrow> get_realized_pnl b)"

text \<open>A sequence of calls on one engine, made one after the other by one thread.\<close>

datatype ('m, 't) engine_call =
    Submit Order
  | SubscribeMarketData string 'm
  | UnsubscribeMarketData string
  | SubscribeTrades string 't
  | UnsubscribeTrades string

fun engine_step ::
  "('m, 't) engine_call \<Rightarrow> rng \<times> ('m, 't) ExecutionEngine \<Rightarrow> (rng \<times> ('m, 't) ExecutionEngine) option" where
  "engine_step (Submit order) (g, e) =
     (case submit_order order g e of None \<Rightarrow> None | Some (oid, g', e') \<Rightarrow> Some (g', e'))"
| "engine_step (SubscribeMarketData s c) (g, e) = map_option (Pair g) (subscribe_market_data s c e)"
| "engine_step (UnsubscribeMarketData s) (g, e) = map_option (Pair g) (unsubscribe_market_data s e)"
| "engine_step (SubscribeTrades s c) (g, e) = map_option (Pair g) (subscribe_trades s c e)"
| "engine_step (UnsubscribeTrades s) (g, e) = map_option (Pair g) (unsubscribe_trades s e)"

fun engine_run ::
  "('m, 't) engine_call list \<Rightarrow> rng \<times> ('m, 't) ExecutionEngine \<Rightarrow> (rng \<times> ('m, 't) ExecutionEngine) option" where
  "engine_run [] st = Some st"
| "engine_run (c # cs) st =
     (case engine_step c st of None \<Rightarrow> None | Some st' \<Rightarrow> engine_run cs st')"

text \<open>The symbols of the orders submitted by a sequence of calls.\<close>

fun submitted_symbols :: "('m, 't) engine_call list \<Rightarrow> string set" where
  "submitted_symbols [] = {}"
| "submitted_symbols (Submit order # cs) = insert (symbol order) (submitted_symbols cs)"
| "submitted_symbols (c # cs) = submitted_symbols cs"

section \<open>Predicates used in the statements\<close>

text \<open>The heap order of a vector by a key: every element other than the root has a key
  no greater than its parent's.  With no NaN among the prices, the buy queue is in heap
  order by the price and the sell queue by the negated price.\<close>

definition key_heap :: "('a \<Rightarrow> real) \<Rightarrow> nat \<Rightarrow> 'a list \<Rightarrow> bool" where
  "key_heap f n xs \<longleftrightarrow> (\<forall>i. 0 < i \<and> i < n \<longrightarrow> f (xs ! i) \<le> f (xs ! ((i - 1) div 2)))"

text \<open>Heap order with a hole at index \<open>h\<close>: the heap order holds at every index but
  \<open>h\<close>, and the children of the hole are bounded by the parent of the hole.\<close>

definition hole_heap :: "('a \<Rightarrow> real) \<Rightarrow> nat \<Rightarrow> nat \<Rightarrow> 'a list \<Rightarrow> bool" where
  "hole_heap f n h xs \<longleftrightarrow>
     (\<forall>i. 0 < i \<and> i < n \<and> i \<noteq> h \<longrightarrow> f (xs ! i) \<le> f (xs ! ((i - 1) div 2))) \<and>
     (\<forall>c. 0 < c \<and> c < n \<and> (c - 1) div 2 = h \<and> 0 < h \<longrightarrow> f (xs ! c) \<le> f (xs ! ((h - 1) div 2)))"

definition below_hole :: "('a \<Rightarrow> real) \<Rightarrow> nat \<Rightarrow> nat \<Rightarrow> 'a list \<Rightarrow> 'a \<Rightarrow> bool" where
  "below_hole f n h xs v \<longleftrightarrow> (\<forall>c. 0 < c \<and> c < n \<and> (c - 1) div 2 = h \<longrightarrow> f (xs ! c) \<le> f v)"

text \<open>The comparator is the strict order of the key on the set \<open>A\<close>.\<close>

definition agrees :: "('a \<Rightarrow> 'a \<Rightarrow> bool) \<Rightarrow> ('a \<Rightarrow> real) \<Rightarrow> 'a set \<Rightarrow> bool" where
  "agrees cmp f A \<longleftrightarrow> (\<forall>a\<in>A. \<forall>b\<in>A. cmp a b = (f a < f b))"

text \<open>A map of the doubles other than NaN into the reals that keeps their order, for the
  keys of the heap order: a number \<open>x\<close> goes to \<open>x / (1 + \<bar>x\<bar>)\<close>, which lies between
  -1 and 1, and the infinities go to 1 and -1.\<close>

fun order_key :: "double \<Rightarrow> real" where
  "order_key (Finite x) = x / (1 + \<bar>x\<bar>)"
| "order_key PInf = 1"
| "order_key NInf = - 1"
| "order_key NaN = 0"

text \<open>The invariant of a book built by \<^verbatim>\<open>add_order\<close> from orders whose prices are
  not NaN: each queue holds orders of its own side, no price is NaN, and each queue is
  in heap order.\<close>

definition book_inv :: "OrderBook \<Rightarrow> bool" where
  "book_inv b \<longleftrightarrow>
     (\<forall>x\<in>set (buy_orders b). is_buy x \<and> price x \<noteq> NaN) \<and>
     (\<forall>x\<in>set (sell_orders b). \<not> is_buy x \<and> price x \<noteq> NaN) \<and>
     key_heap (\<lambda>x. order_key (price x)) (length (buy_orders b)) (buy_orders b) \<and>
     key_heap (\<lambda>x. - order_key (price x)) (length (sell_orders b)) (sell_orders b)"

text \<open>No resting order of the book has the price NaN.\<close>

definition no_nan_prices :: "OrderBook \<Rightarrow> bool" where
  "no_nan_prices b \<longleftrightarrow>
     (\<forall>x\<in>set (buy_orders b). price x \<noteq> NaN) \<and> (\<forall>x\<in>set (sell_orders b). price x \<noteq> NaN)"

text \<open>No lock of the engine is held: the state between two calls of one thread.\<close>

definition unlocked :: "('m, 't) ExecutionEngine \<Rightarrow> bool" where
  "unlocked e \<longleftrightarrow> \<not> engine_mutex e \<and> (\<forall>b\<in>ran (order_books e). \<not> book_mutex b)"

section \<open>Quantities and volume\<close>

text \<open>The sum of the quantities of a list of orders, as signed integers, and the sum
  over the buy orders of a list.\<close>

definition volume :: "Order list \<Rightarrow> int" where
  "volume xs = sum_list (map (\<lambda>x. sint (quantity x)) xs)"

definition buy_volume :: "Order list \<Rightarrow> int" where
  "buy_volume xs = volume (filter is_buy xs)"

text \<open>The invariant behind the statement about the position: every resting order has
  a positive quantity, the position is not negative, and the position plus the resting
  buy volume is at most \<open>B\<close>.  A match moves its quantity from the resting buy volume
  to the position, so the sum stays the same.\<close>

definition volume_inv :: "int \<Rightarrow> OrderBook \<Rightarrow> bool" where
  "volume_inv B b \<longleftrightarrow>
     (\<forall>x\<in>set (buy_orders b). 0 < sint (quantity x)) \<and>
     (\<forall>x\<in>set (sell_orders b). 0 < sint (quantity x)) \<and>
     0 \<le> sint (position' b) \<and>
     sint (position' b) + volume (buy_orders b) \<le> B"

section \<open>Example orders and books\<close>

text \<open>Concrete orders and books on which the statements below are evaluated.\<close>

definition order_of :: "string \<Rightarrow> real \<Rightarrow> int \<Rightarrow> bool \<Rightarrow> Order" where
  "order_of i p q s =
     \<lparr>order_id = i, symbol = ''AAPL'', price = Finite p, quantity = word_of_int q, is_buy = s\<rparr>"

text \<open>A book inside \<^verbatim>\<open>add_order\<close> (the lock is held) whose top orders cross: a buy of
  100 at 100 and a sell of 50 at 95.\<close>

definition crossed_book :: OrderBook where
  "crossed_book =
     \<lparr>symbol' = ''AAPL'',
      buy_orders = [order_of ''b1'' 100 100 True],
      sell_orders = [order_of ''s1'' 95 50 False],
      position' = 0, average_price' = Finite 0, realized_pnl' = Finite 0, book_mutex = True\<rparr>"

text \<open>A book between two calls with a buy of 100 at 100 and a sell of 10 at 110.\<close>

definition resting_book :: OrderBook where
  "resting_book =
     \<lparr>symbol' = ''AAPL'',
      buy_orders = [order_of ''b1'' 100 100 True],
      sell_orders = [order_of ''s0'' 110 10 False],
      position' = 0, average_price' = Finite 0, realized_pnl' = Finite 0, book_mutex = False\<rparr>"

text \<open>Four sell orders at the same price, in the order of their submission.\<close>

definition equal_price_sells :: "Order list" where
  "equal_price_sells =
     [order_of ''A'' 100 1 False, order_of ''B'' 100 1 False,
      order_of ''C'' 100 1 False, order_of ''D'' 100 1 False]"

text \<open>Three sell orders and two buy orders at different prices that do not cross.\<close>

definition spread_orders :: "Order list" where
  "spread_orders =
     [order_of ''s1'' 101 5 False, order_of ''s2'' 100 5 False, order_of ''s3'' 102 5 False,
      order_of ''b1'' 98 5 True, order_of ''b2'' 99 5 True]"

text \<open>The book after a buy of 20 at 100 and a sell of 10 at 90 on a new book: 10 are
  matched at 95, the buy order rests with 10 and the sell side is empty.\<close>

definition one_sided_book :: OrderBook where
  "one_sided_book =
     \<lparr>symbol' = ''AAPL'',
      buy_orders = [order_of ''b1'' 100 10 True],
      sell_orders = [],
      position' = 10, average_price' = Finite (95 / 2), realized_pnl' = Finite 475, book_mutex = False\<rparr>"

text \<open>A callback (the number 7) subscribes to the trades of AAPL, then a buy of 10 at
  100 and a sell of 10 at 100 are submitted.\<close>

definition example_calls :: "(unit, nat) engine_call list" where
  "example_calls =
     [SubscribeTrades ''AAPL'' 7,
      Submit (order_of [] 100 10 True),
      Submit (order_of [] 100 10 False)]"

text \<open>A buy order with a negative price and a negative quantity.\<close>

definition malformed_order :: Order where
  "malformed_order = order_of [] (- 5) (- 3) True"

text \<open>The two orders that lead to \<open>one_sided_book\<close>.\<close>

definition positive_orders :: "Order list" where
  "positive_orders = [order_of ''b1'' 100 20 True, order_of ''s1'' 90 10 False]"

text \<open>A buy order whose price is NaN, a buy of 1 at 100 and a sell of 1 at 90.\<close>

definition nan_orders :: "Order list" where
  "nan_orders =
     [\<lparr>order_id = ''b1'', symbol = ''AAPL'', price = NaN, quantity = 1, is_buy = True\<rparr>,
      order_of ''b2'' 100 1 True, order_of ''s1'' 90 1 False]"

text \<open>An engine between two calls whose only book is \<open>resting_book\<close>.\<close>

definition resting_engine :: "(unit, nat) ExecutionEngine" where
  "resting_engine =
     \<lparr>running = False, order_books = [''AAPL'' \<mapsto> resting_book],
      market_data_callbacks = Map.empty, trade_callbacks = Map.empty, engine_mutex = False\<rparr>"

section \<open>The priority queue: elements, length and heap order\<close>

lemma length_push_heap_impl [simp]: "length (push_heap_impl cmp xs h t v) = length xs"
  by (induction cmp xs h t v rule: push_heap_impl.induct) (subst push_heap_impl.simps, simp add: Let_def)

lemma set_update_nth_subset: "p < length xs \<Longrightarrow> set (xs[h := xs ! p]) \<subseteq> set xs"
  by (meson nth_mem set_update_subsetI subset_refl)

lemma set_push_heap_impl: "h < length xs \<Longrightarrow> set (push_heap_impl cmp xs h t v) \<subseteq> insert v (set xs)"
proof (induction cmp xs h t v rule: push_heap_impl.induct)
  case (1 cmp xs h t v)
  show ?case
  proof (cases "h > t \<and> cmp (xs ! ((h - 1) div 2)) v")
    case True
    have pl: "(h - 1) div 2 < length xs" using 1(2) by linarith
    have "set (xs[h := xs ! ((h - 1) div 2)]) \<subseteq> set xs"
      using pl by (rule set_update_nth_subset)
    moreover have "set (push_heap_impl cmp (xs[h := xs ! ((h - 1) div 2)]) ((h - 1) div 2) t v)
        \<subseteq> insert v (set (xs[h := xs ! ((h - 1) div 2)]))"
      using 1(1)[OF refl True] pl by simp
    ultimately show ?thesis
      using True by (subst push_heap_impl.simps) (auto simp: Let_def)
  next
    case False
    then show ?thesis
      using set_update_subset_insert[of xs h v] by (subst push_heap_impl.simps) (auto simp: Let_def)
  qed
qed

lemma nth_push_heap_impl_above: "h < i \<Longrightarrow> push_heap_impl cmp xs h t v ! i = xs ! i"
proof (induction cmp xs h t v rule: push_heap_impl.induct)
  case (1 cmp xs h t v)
  show ?case
  proof (cases "h > t \<and> cmp (xs ! ((h - 1) div 2)) v")
    case True
    then have "(h - 1) div 2 < i" using 1(2) by linarith
    with 1 True show ?thesis
      by (subst push_heap_impl.simps) (simp add: Let_def)
  next
    case False
    with 1(2) show ?thesis
      by (subst push_heap_impl.simps) (auto simp: Let_def)
  qed
qed

lemma mset_update_swap:
  assumes "p < length xs" "h < length xs" "p \<noteq> h"
  shows "mset (xs[h := xs ! p, p := v]) = mset (xs[h := v])"
proof -
  have "mset (xs[h := xs ! p, p := v]) = add_mset v (mset (xs[h := xs ! p]) - {#xs ! p#})"
    using assms by (simp add: mset_update)
  also have "mset (xs[h := xs ! p]) = add_mset (xs ! p) (mset xs - {#xs ! h#})"
    using assms by (simp add: mset_update)
  finally show ?thesis using assms by (simp add: mset_update)
qed

lemma mset_push_heap_impl: "h < length xs \<Longrightarrow> mset (push_heap_impl cmp xs h t v) = mset (xs[h := v])"
proof (induction cmp xs h t v rule: push_heap_impl.induct)
  case (1 cmp xs h t v)
  show ?case
  proof (cases "h > t \<and> cmp (xs ! ((h - 1) div 2)) v")
    case True
    let ?p = "(h - 1) div 2"
    from True have ph: "?p < h" by linarith
    with 1(2) have pl: "?p < length xs" by linarith
    have "mset (push_heap_impl cmp xs h t v) = mset (xs[h := xs ! ?p, ?p := v])"
      using 1(1)[OF refl True] True pl by (subst push_heap_impl.simps) (simp add: Let_def)
    also have "\<dots> = mset (xs[h := v])"
      using ph pl 1(2) by (intro mset_update_swap) auto
    finally show ?thesis .
  next
    case False
    then show ?thesis
      by (subst push_heap_impl.simps) (auto simp: Let_def)
  qed
qed

lemma adjust_heap_loop_facts:
  "adjust_heap_loop cmp n xs h = (ys, k) \<Longrightarrow> h < n \<Longrightarrow> n \<le> length xs \<Longrightarrow>
     length ys = length xs \<and> k < n \<and> h \<le> k \<and> (n - 1) div 2 \<le> k \<and> set ys \<subseteq> set xs \<and>
     (\<forall>i. n \<le> i \<longrightarrow> ys ! i = xs ! i) \<and> (\<forall>i. i < h \<longrightarrow> ys ! i = xs ! i) \<and>
     mset (ys[k := v]) = mset (xs[h := v])"
proof (induction cmp n xs h arbitrary: ys k rule: adjust_heap_loop.induct)
  case (1 cmp n xs h)
  show ?case
  proof (cases "h < (n - 1) div 2")
    case False
    with 1(2) have "ys = xs" "k = h"
      by (simp_all add: adjust_heap_loop.simps[of cmp n xs h])
    with False 1(3) show ?thesis by simp
  next
    case True
    define r where "r = 2 * (h + 1)"
    define c where "c = (if cmp (xs ! r) (xs ! (r - 1)) then r - 1 else r)"
    from True have rn: "r < n" unfolding r_def by presburger
    have ch: "h < c" "c \<le> r" unfolding c_def r_def by auto
    with rn have cn: "c < n" by linarith
    have rec: "adjust_heap_loop cmp n (xs[h := xs ! c]) c = (ys, k)"
      using 1(2) True by (auto simp: adjust_heap_loop.simps[of cmp n xs h] Let_def r_def c_def split: if_splits)
    have IH: "length ys = length (xs[h := xs ! c]) \<and> k < n \<and> c \<le> k \<and> (n - 1) div 2 \<le> k \<and>
        set ys \<subseteq> set (xs[h := xs ! c]) \<and>
        (\<forall>i. n \<le> i \<longrightarrow> ys ! i = (xs[h := xs ! c]) ! i) \<and> (\<forall>i. i < c \<longrightarrow> ys ! i = (xs[h := xs ! c]) ! i) \<and>
        mset (ys[k := v]) = mset ((xs[h := xs ! c])[c := v])"
      using 1(1)[OF True r_def c_def rec cn] 1(4) by simp
    have cl: "c < length xs" using cn 1(4) by linarith
    have hl: "h < length xs" using 1(3) 1(4) by linarith
    have s: "set (xs[h := xs ! c]) \<subseteq> set xs"
      using cl by (rule set_update_nth_subset)
    have m: "mset ((xs[h := xs ! c])[c := v]) = mset (xs[h := v])"
      using cl hl ch by (intro mset_update_swap) auto
    show ?thesis
      using IH s m ch 1(3) by auto
  qed
qed

lemma hole_heap_up:
  assumes hh: "hole_heap f n h xs" and bh: "below_hole f n h xs v"
    and h0: "0 < h" and hn: "h < n" and nl: "n \<le> length xs"
    and lt: "f (xs ! ((h - 1) div 2)) < f v"
  shows "hole_heap f n ((h - 1) div 2) (xs[h := xs ! ((h - 1) div 2)]) \<and>
         below_hole f n ((h - 1) div 2) (xs[h := xs ! ((h - 1) div 2)]) v"
proof -
  let ?p = "(h - 1) div 2"
  let ?xs = "xs[h := xs ! ?p]"
  have ph: "?p < h" using h0 by linarith
  have hl: "h < length xs" using hn nl by linarith
  have A: "\<And>i. 0 < i \<Longrightarrow> i < n \<Longrightarrow> i \<noteq> h \<Longrightarrow> f (xs ! i) \<le> f (xs ! ((i - 1) div 2))"
    using hh unfolding hole_heap_def by blast
  have C: "\<And>c. 0 < c \<Longrightarrow> c < n \<Longrightarrow> (c - 1) div 2 = h \<Longrightarrow> f (xs ! c) \<le> f (xs ! ?p)"
    using hh h0 unfolding hole_heap_def by blast
  have A': "f (?xs ! i) \<le> f (?xs ! ((i - 1) div 2))" if i: "0 < i" "i < n" "i \<noteq> ?p" for i
  proof (cases "i = h")
    case True
    then show ?thesis using hl ph by simp
  next
    case ih: False
    show ?thesis
    proof (cases "(i - 1) div 2 = h")
      case True
      then show ?thesis using C[OF i(1) i(2) True] ih hl by simp
    next
      case False
      then show ?thesis using A[OF i(1) i(2) ih] ih by simp
    qed
  qed
  have P: "f (xs ! c) \<le> f (xs ! ?p)" if c: "0 < c" "c < n" "(c - 1) div 2 = ?p" "c \<noteq> h" for c
    using A[OF c(1) c(2) c(4)] c(3) by simp
  have C': "f (?xs ! c) \<le> f (?xs ! ((?p - 1) div 2))"
    if c: "0 < c" "c < n" "(c - 1) div 2 = ?p" "0 < ?p" for c
  proof -
    have pp: "(?p - 1) div 2 \<noteq> h" using ph by linarith
    have ppA: "f (xs ! ?p) \<le> f (xs ! ((?p - 1) div 2))"
      using A[of ?p] c(4) ph hn by simp
    show ?thesis
    proof (cases "c = h")
      case True
      then show ?thesis using hl pp ppA by simp
    next
      case False
      then show ?thesis using P[OF c(1) c(2) c(3) False] ppA pp by simp
    qed
  qed
  have B': "f (?xs ! c) \<le> f v" if c: "0 < c" "c < n" "(c - 1) div 2 = ?p" for c
  proof (cases "c = h")
    case True
    then show ?thesis using hl lt by simp
  next
    case False
    then show ?thesis using P[OF c(1) c(2) c(3) False] lt by simp
  qed
  show ?thesis
    unfolding hole_heap_def below_hole_def using A' C' B' by blast
qed

lemma hole_heap_fill:
  assumes hh: "hole_heap f n h xs" and bh: "below_hole f n h xs v"
    and hn: "h < n" and nl: "n \<le> length xs"
    and le: "h = 0 \<or> f v \<le> f (xs ! ((h - 1) div 2))"
  shows "key_heap f n (xs[h := v])"
proof -
  have hl: "h < length xs" using hn nl by linarith
  have A: "\<And>i. 0 < i \<Longrightarrow> i < n \<Longrightarrow> i \<noteq> h \<Longrightarrow> f (xs ! i) \<le> f (xs ! ((i - 1) div 2))"
    using hh unfolding hole_heap_def by blast
  have B: "\<And>c. 0 < c \<Longrightarrow> c < n \<Longrightarrow> (c - 1) div 2 = h \<Longrightarrow> f (xs ! c) \<le> f v"
    using bh unfolding below_hole_def by blast
  have "f (xs[h := v] ! i) \<le> f (xs[h := v] ! ((i - 1) div 2))" if i: "0 < i" "i < n" for i
  proof (cases "i = h")
    case True
    have "(h - 1) div 2 \<noteq> h" using i True by linarith
    then show ?thesis using True hl le i by simp
  next
    case ih: False
    show ?thesis
    proof (cases "(i - 1) div 2 = h")
      case True
      then show ?thesis using B[OF i True] ih hl by simp
    next
      case False
      then show ?thesis using A[OF i ih] ih by simp
    qed
  qed
  then show ?thesis unfolding key_heap_def by blast
qed

lemma push_heap_impl_heap:
  assumes ag: "agrees cmp f A"
  shows "set xs \<subseteq> A \<Longrightarrow> v \<in> A \<Longrightarrow> h < n \<Longrightarrow> n \<le> length xs \<Longrightarrow>
     hole_heap f n h xs \<Longrightarrow> below_hole f n h xs v \<Longrightarrow>
     key_heap f n (push_heap_impl cmp xs h 0 v)"
  using ag
proof (induction cmp xs h "0::nat" v rule: push_heap_impl.induct)
  case (1 cmp xs h v)
  note sA = "1.prems"(1) and vA = "1.prems"(2) and hn = "1.prems"(3) and nl = "1.prems"(4)
    and hh = "1.prems"(5) and bh = "1.prems"(6) and ag = "1.prems"(7)
  let ?p = "(h - 1) div 2"
  have hl: "h < length xs" using hn nl by linarith
  have pl: "?p < length xs" using hl by linarith
  have pA: "xs ! ?p \<in> A" using sA pl by (meson nth_mem subsetD)
  have c: "cmp (xs ! ?p) v = (f (xs ! ?p) < f v)"
    using ag pA vA unfolding agrees_def by blast
  show ?case
  proof (cases "h > 0 \<and> cmp (xs ! ?p) v")
    case True
    have s: "set (xs[h := xs ! ?p]) \<subseteq> A"
      using set_update_nth_subset[OF pl, of h] sA by blast
    have pn: "?p < n" using hn by linarith
    have h0: "0 < h" using True by simp
    have lt: "f (xs ! ?p) < f v" using True c by simp
    have inv: "hole_heap f n ?p (xs[h := xs ! ?p]) \<and> below_hole f n ?p (xs[h := xs ! ?p]) v"
      using hole_heap_up[OF hh bh h0 hn nl lt] .
    have "key_heap f n (push_heap_impl cmp (xs[h := xs ! ?p]) ?p 0 v)"
      using "1.hyps"[OF refl True s vA pn] nl inv ag by simp
    then show ?thesis
      using True by (subst push_heap_impl.simps) (simp add: Let_def)
  next
    case False
    then have le: "h = 0 \<or> f v \<le> f (xs ! ?p)" using c by auto
    have "key_heap f n (xs[h := v])"
      using hole_heap_fill[OF hh bh hn nl le] .
    then show ?thesis
      using False by (subst push_heap_impl.simps) (auto simp: Let_def)
  qed
qed

lemma hole_heap_down:
  assumes hh: "hole_heap f n h xs"
    and c0: "0 < c" and cn: "c < n" and pc: "(c - 1) div 2 = h" and nl: "n \<le> length xs"
    and sib: "\<And>i. 0 < i \<Longrightarrow> i < n \<Longrightarrow> (i - 1) div 2 = h \<Longrightarrow> i \<noteq> c \<Longrightarrow> f (xs ! i) \<le> f (xs ! c)"
  shows "hole_heap f n c (xs[h := xs ! c])"
proof -
  let ?xs = "xs[h := xs ! c]"
  have hc: "h < c" using c0 pc by linarith
  have hl: "h < length xs" using hc cn nl by linarith
  have A: "\<And>i. 0 < i \<Longrightarrow> i < n \<Longrightarrow> i \<noteq> h \<Longrightarrow> f (xs ! i) \<le> f (xs ! ((i - 1) div 2))"
    using hh unfolding hole_heap_def by blast
  have C: "0 < h \<Longrightarrow> f (xs ! c) \<le> f (xs ! ((h - 1) div 2))"
    using hh c0 cn pc unfolding hole_heap_def by blast
  have A': "f (?xs ! i) \<le> f (?xs ! ((i - 1) div 2))" if i: "0 < i" "i < n" "i \<noteq> c" for i
  proof (cases "i = h")
    case True
    have "(h - 1) div 2 \<noteq> h" using i True by linarith
    then show ?thesis using True C hl i by simp
  next
    case ih: False
    show ?thesis
    proof (cases "(i - 1) div 2 = h")
      case True
      then show ?thesis using sib[OF i(1) i(2) True i(3)] ih hl by simp
    next
      case False
      then show ?thesis using A[OF i(1) i(2) ih] ih by simp
    qed
  qed
  have C': "f (?xs ! k) \<le> f (?xs ! ((c - 1) div 2))" if k: "0 < k" "k < n" "(k - 1) div 2 = c" for k
  proof -
    have kh: "k \<noteq> h" using k hc by linarith
    show ?thesis using A[OF k(1) k(2) kh] k(3) kh pc hl by simp
  qed
  show ?thesis
    unfolding hole_heap_def using A' C' by blast
qed

lemma adjust_heap_loop_heap:
  "agrees cmp f A \<Longrightarrow> set xs \<subseteq> A \<Longrightarrow> h < n \<Longrightarrow> n \<le> length xs \<Longrightarrow> hole_heap f n h xs \<Longrightarrow>
     adjust_heap_loop cmp n xs h = (ys, k) \<Longrightarrow> hole_heap f n k ys"
proof (induction cmp n xs h arbitrary: ys k rule: adjust_heap_loop.induct)
  case (1 cmp n xs h)
  note ag = "1.prems"(1) and sA = "1.prems"(2) and hn = "1.prems"(3) and nl = "1.prems"(4)
    and hh = "1.prems"(5) and res = "1.prems"(6)
  show ?case
  proof (cases "h < (n - 1) div 2")
    case False
    with res have "ys = xs" "k = h"
      by (simp_all add: adjust_heap_loop.simps[of cmp n xs h])
    with hh show ?thesis by simp
  next
    case True
    define r where "r = 2 * (h + 1)"
    define c where "c = (if cmp (xs ! r) (xs ! (r - 1)) then r - 1 else r)"
    from True have rn: "r < n" unfolding r_def by presburger
    have ch: "h < c" "c \<le> r" unfolding c_def r_def by auto
    with rn have cn: "c < n" by linarith
    have c0: "0 < c" using ch by linarith
    have pc: "(c - 1) div 2 = h" unfolding c_def r_def by auto
    have rec: "adjust_heap_loop cmp n (xs[h := xs ! c]) c = (ys, k)"
      using res True by (auto simp: adjust_heap_loop.simps[of cmp n xs h] Let_def r_def c_def split: if_splits)
    have cl: "c < length xs" using cn nl by linarith
    have rl: "r < length xs" "r - 1 < length xs" using rn nl by linarith+
    have rA: "xs ! r \<in> A" "xs ! (r - 1) \<in> A" using rl sA by (meson nth_mem subsetD)+
    have cmp_eq: "cmp (xs ! r) (xs ! (r - 1)) = (f (xs ! r) < f (xs ! (r - 1)))"
      using ag rA unfolding agrees_def by blast
    have sib: "f (xs ! i) \<le> f (xs ! c)" if i: "0 < i" "i < n" "(i - 1) div 2 = h" "i \<noteq> c" for i
    proof -
      have "i = r \<or> i = r - 1" using i(1) i(3) unfolding r_def by auto
      then show ?thesis using i(4) cmp_eq unfolding c_def by (auto split: if_splits)
    qed
    have hh': "hole_heap f n c (xs[h := xs ! c])"
      using hole_heap_down[OF hh c0 cn pc nl sib] by blast
    have s: "set (xs[h := xs ! c]) \<subseteq> A"
      using set_update_nth_subset[OF cl, of h] sA by blast
    show ?thesis
      using "1.IH"[OF True r_def c_def ag s cn _ hh' rec] nl by simp
  qed
qed

lemma adjust_heap_frame:
  assumes n0: "0 < n" and nl: "n \<le> length xs"
  shows "length (adjust_heap cmp xs 0 n v) = length xs \<and>
         (\<forall>i. n \<le> i \<longrightarrow> adjust_heap cmp xs 0 n v ! i = xs ! i) \<and>
         mset (adjust_heap cmp xs 0 n v) = mset (xs[0 := v]) \<and>
         set (adjust_heap cmp xs 0 n v) \<subseteq> insert v (set xs)"
proof -
  obtain ys k where loop: "adjust_heap_loop cmp n xs 0 = (ys, k)"
    by (cases "adjust_heap_loop cmp n xs 0") blast
  have F: "length ys = length xs" "k < n" "(n - 1) div 2 \<le> k" "set ys \<subseteq> set xs"
    "\<And>i. n \<le> i \<Longrightarrow> ys ! i = xs ! i" "mset (ys[k := v]) = mset (xs[0 := v])"
    using adjust_heap_loop_facts[OF loop n0 nl, of v] by blast+
  have kl: "k < length ys" using F(1) F(2) nl by linarith
  show ?thesis
  proof (cases "even n \<and> k = (n - 2) div 2")
    case True
    define c where "c = 2 * (k + 1) - 1"
    have ck: "c \<noteq> k" "c = n - 1" "c < n" using True n0 unfolding c_def by auto
    have cl: "c < length ys" using ck(3) F(1) nl by linarith
    have r: "adjust_heap cmp xs 0 n v = push_heap_impl cmp (ys[k := ys ! c]) c 0 v"
      using True loop unfolding adjust_heap_def c_def by simp
    have m: "mset (push_heap_impl cmp (ys[k := ys ! c]) c 0 v) = mset (xs[0 := v])"
      using mset_push_heap_impl[of c "ys[k := ys ! c]" cmp 0 v] cl
        mset_update_swap[OF cl kl ck(1), of v] F(6) by simp
    have s: "set (push_heap_impl cmp (ys[k := ys ! c]) c 0 v) \<subseteq> insert v (set xs)"
      using set_push_heap_impl[of c "ys[k := ys ! c]" cmp 0 v] cl
        set_update_nth_subset[OF cl, of k] F(4) by auto
    have fr: "push_heap_impl cmp (ys[k := ys ! c]) c 0 v ! i = xs ! i" if "n \<le> i" for i
      using nth_push_heap_impl_above[of c i cmp "ys[k := ys ! c]" 0 v] that ck(3) F(2) F(5)[OF that]
      by simp
    show ?thesis unfolding r using m s fr F(1) by simp
  next
    case False
    have r: "adjust_heap cmp xs 0 n v = push_heap_impl cmp ys k 0 v"
      using False loop unfolding adjust_heap_def by auto
    have m: "mset (push_heap_impl cmp ys k 0 v) = mset (xs[0 := v])"
      using mset_push_heap_impl[OF kl, of cmp 0 v] F(6) by simp
    have s: "set (push_heap_impl cmp ys k 0 v) \<subseteq> insert v (set xs)"
      using set_push_heap_impl[OF kl, of cmp 0 v] F(4) by auto
    have fr: "push_heap_impl cmp ys k 0 v ! i = xs ! i" if "n \<le> i" for i
      using nth_push_heap_impl_above[of k i cmp ys 0 v] that F(2) F(5)[OF that] by simp
    show ?thesis unfolding r using m s fr F(1) by simp
  qed
qed

lemma adjust_heap_heap:
  assumes ag: "agrees cmp f A" and sA: "set xs \<subseteq> A" and vA: "v \<in> A"
    and n0: "0 < n" and nl: "n \<le> length xs" and hh: "hole_heap f n 0 xs"
  shows "key_heap f n (adjust_heap cmp xs 0 n v)"
proof -
  obtain ys k where loop: "adjust_heap_loop cmp n xs 0 = (ys, k)"
    by (cases "adjust_heap_loop cmp n xs 0") blast
  have F: "length ys = length xs" "k < n" "(n - 1) div 2 \<le> k" "set ys \<subseteq> set xs"
    using adjust_heap_loop_facts[OF loop n0 nl, of v] by blast+
  have hk: "hole_heap f n k ys"
    using adjust_heap_loop_heap[OF ag sA n0 nl hh loop] .
  have nl': "n \<le> length ys" using F(1) nl by simp
  have ysA: "set ys \<subseteq> A" using F(4) sA by blast
  show ?thesis
  proof (cases "even n \<and> k = (n - 2) div 2")
    case True
    define c where "c = 2 * (k + 1) - 1"
    have ck: "0 < c" "c = n - 1" "c < n" "(c - 1) div 2 = k" using True n0 unfolding c_def by auto
    have cl: "c < length ys" using ck(3) nl' by linarith
    have r: "adjust_heap cmp xs 0 n v = push_heap_impl cmp (ys[k := ys ! c]) c 0 v"
      using True loop unfolding adjust_heap_def c_def by simp
    have sib: "f (ys ! i) \<le> f (ys ! c)" if i: "0 < i" "i < n" "(i - 1) div 2 = k" "i \<noteq> c" for i
    proof -
      have "i = c \<or> i = c + 1" using i(1) i(3) unfolding c_def by auto
      then show ?thesis using i(2) i(4) ck(2) by auto
    qed
    have hh': "hole_heap f n c (ys[k := ys ! c])"
      using hole_heap_down[OF hk ck(1) ck(3) ck(4) nl' sib] by blast
    have bh: "below_hole f n c (ys[k := ys ! c]) v"
      unfolding below_hole_def using ck(2) n0 by auto
    have s: "set (ys[k := ys ! c]) \<subseteq> A"
      using set_update_nth_subset[OF cl, of k] ysA by blast
    show ?thesis unfolding r
      using push_heap_impl_heap[OF ag s vA ck(3) _ hh' bh] nl' by simp
  next
    case False
    have r: "adjust_heap cmp xs 0 n v = push_heap_impl cmp ys k 0 v"
      using False loop unfolding adjust_heap_def by auto
    have leaf: "\<not> (0 < c \<and> c < n \<and> (c - 1) div 2 = k)" for c
    proof
      assume c: "0 < c \<and> c < n \<and> (c - 1) div 2 = k"
      then have "2 * k + 1 \<le> c" by auto
      moreover have "n \<le> 2 * k + 1" using F(3) False by presburger
      ultimately show False using c by linarith
    qed
    have bh: "below_hole f n k ys v"
      unfolding below_hole_def using leaf by blast
    show ?thesis unfolding r
      using push_heap_impl_heap[OF ag ysA vA F(2) nl' hk bh] .
  qed
qed

lemma pq_push_mset: "mset (pq_push cmp c x) = add_mset x (mset c)"
  unfolding pq_push_def push_heap_def
  using mset_push_heap_impl[of "length c" "c @ [x]" cmp 0 x] by simp

lemma pq_push_length: "length (pq_push cmp c x) = Suc (length c)"
  unfolding pq_push_def push_heap_def by simp

lemma pq_push_set: "set (pq_push cmp c x) = insert x (set c)"
  using pq_push_mset[of cmp c x] by (metis set_mset_add_mset_insert set_mset_mset)

lemma pq_push_heap:
  assumes ag: "agrees cmp f A" and sA: "set c \<subseteq> A" and xA: "x \<in> A"
    and kh: "key_heap f (length c) c"
  shows "key_heap f (length (pq_push cmp c x)) (pq_push cmp c x)"
proof -
  let ?n = "length c"
  have A: "\<And>i. 0 < i \<Longrightarrow> i < ?n \<Longrightarrow> f (c ! i) \<le> f (c ! ((i - 1) div 2))"
    using kh unfolding key_heap_def by blast
  have hh: "hole_heap f (Suc ?n) ?n (c @ [x])"
    unfolding hole_heap_def
  proof (intro conjI allI impI)
    fix i assume i: "0 < i \<and> i < Suc ?n \<and> i \<noteq> ?n"
    then have "i < ?n" "(i - 1) div 2 < ?n" by linarith+
    then show "f ((c @ [x]) ! i) \<le> f ((c @ [x]) ! ((i - 1) div 2))"
      using A[of i] i by (simp add: nth_append)
  next
    fix k assume k: "0 < k \<and> k < Suc ?n \<and> (k - 1) div 2 = ?n \<and> 0 < ?n"
    then have False by linarith
    then show "f ((c @ [x]) ! k) \<le> f ((c @ [x]) ! ((?n - 1) div 2))" ..
  qed
  have bh: "below_hole f (Suc ?n) ?n (c @ [x]) x"
    unfolding below_hole_def
  proof (intro allI impI)
    fix k assume k: "0 < k \<and> k < Suc ?n \<and> (k - 1) div 2 = ?n"
    then have False by linarith
    then show "f ((c @ [x]) ! k) \<le> f x" ..
  qed
  have s: "set (c @ [x]) \<subseteq> A" using sA xA by simp
  have "key_heap f (Suc ?n) (push_heap_impl cmp (c @ [x]) ?n 0 x)"
    using push_heap_impl_heap[OF ag s xA _ _ hh bh] by simp
  then show ?thesis
    unfolding pq_push_length unfolding pq_push_def push_heap_def by simp
qed

lemma pop_heap_facts:
  assumes ne: "c \<noteq> []"
  shows "length (pop_heap cmp c) = length c \<and> last (pop_heap cmp c) = hd c \<and>
         mset (pop_heap cmp c) = mset c"
proof (cases "length c > 1")
  case False
  then have "length c = 1" using ne by (cases c) auto
  then show ?thesis
    using False ne unfolding pop_heap_def by (cases c) auto
next
  case True
  define l where "l = length c - 1"
  define xs1 where "xs1 = c[l := c ! 0]"
  have l0: "0 < l" "l < length c" "l \<le> length xs1" "l < length xs1" "0 < length c"
    using True unfolding l_def xs1_def by auto
  have r: "pop_heap cmp c = adjust_heap cmp xs1 0 l (c ! l)"
    using True unfolding pop_heap_def l_def xs1_def by (simp add: Let_def)
  have F: "length (adjust_heap cmp xs1 0 l (c ! l)) = length xs1"
    "adjust_heap cmp xs1 0 l (c ! l) ! l = xs1 ! l"
    "mset (adjust_heap cmp xs1 0 l (c ! l)) = mset (xs1[0 := c ! l])"
    using adjust_heap_frame[OF l0(1) l0(3), of cmp "c ! l"] by auto
  have len: "length (pop_heap cmp c) = length c" using r F(1) xs1_def by simp
  have "pop_heap cmp c \<noteq> []" using len ne by auto
  then have "last (pop_heap cmp c) = pop_heap cmp c ! l"
    using len by (simp add: last_conv_nth l_def)
  also have "\<dots> = c ! 0" using r F(2) l0 xs1_def by simp
  also have "\<dots> = hd c" using ne by (simp add: hd_conv_nth)
  finally have la: "last (pop_heap cmp c) = hd c" .
  have "mset (xs1[0 := c ! l]) = mset (c[l := c ! l])"
    unfolding xs1_def using mset_update_swap[of 0 c l "c ! l"] l0 by simp
  then have "mset (pop_heap cmp c) = mset c" using r F(3) by simp
  with len la show ?thesis by simp
qed

lemma pq_pop_mset: "c \<noteq> [] \<Longrightarrow> add_mset (hd c) (mset (pq_pop cmp c)) = mset c"
proof -
  assume ne: "c \<noteq> []"
  have ne': "pop_heap cmp c \<noteq> []" using pop_heap_facts[OF ne, of cmp] ne by auto
  have "mset (butlast (pop_heap cmp c)) + {#last (pop_heap cmp c)#} = mset (pop_heap cmp c)"
    using ne' by (metis append_butlast_last_id mset.simps(1) mset.simps(2) mset_append add_mset_add_single union_mset_add_mset_right add.right_neutral)
  then show ?thesis
    using pop_heap_facts[OF ne, of cmp] unfolding pq_pop_def by simp
qed

lemma pq_pop_length: "length (pq_pop cmp c) = length c - 1"
proof (cases "c = []")
  case True
  then show ?thesis unfolding pq_pop_def pop_heap_def by simp
next
  case False
  then show ?thesis using pop_heap_facts[OF False, of cmp] unfolding pq_pop_def by simp
qed

lemma pq_pop_set: "c \<noteq> [] \<Longrightarrow> set (pq_pop cmp c) \<subseteq> set c"
  using pq_pop_mset[of c cmp] by (metis set_mset_mset set_mset_add_mset_insert subset_insertI)

lemma pq_pop_heap:
  assumes ag: "agrees cmp f A" and sA: "set c \<subseteq> A" and kh: "key_heap f (length c) c"
  shows "key_heap f (length (pq_pop cmp c)) (pq_pop cmp c)"
proof (cases "length c > 1")
  case False
  then have "length (pq_pop cmp c) = 0" using pq_pop_length[of cmp c] by simp
  then show ?thesis unfolding key_heap_def by simp
next
  case True
  define l where "l = length c - 1"
  define xs1 where "xs1 = c[l := c ! 0]"
  have l0: "0 < l" "l < length c" "l \<le> length xs1" "0 < length c"
    using True unfolding l_def xs1_def by auto
  have r: "pop_heap cmp c = adjust_heap cmp xs1 0 l (c ! l)"
    using True unfolding pop_heap_def l_def xs1_def by (simp add: Let_def)
  have A: "\<And>i. 0 < i \<Longrightarrow> i < length c \<Longrightarrow> f (c ! i) \<le> f (c ! ((i - 1) div 2))"
    using kh unfolding key_heap_def by blast
  have hh: "hole_heap f l 0 xs1"
    unfolding hole_heap_def
  proof (intro conjI allI impI)
    fix i assume i: "0 < i \<and> i < l \<and> i \<noteq> 0"
    then have "i < length c" "i \<noteq> l" "(i - 1) div 2 \<noteq> l" using l0 by linarith+
    then show "f (xs1 ! i) \<le> f (xs1 ! ((i - 1) div 2))"
      using A[of i] i unfolding xs1_def by simp
  next
    fix k assume "0 < k \<and> k < l \<and> (k - 1) div 2 = 0 \<and> (0::nat) < 0"
    then show "f (xs1 ! k) \<le> f (xs1 ! ((0 - 1) div 2))" by simp
  qed
  have s: "set xs1 \<subseteq> A"
    unfolding xs1_def using set_update_nth_subset[OF l0(4), of l] sA by blast
  have vA: "c ! l \<in> A" using l0(2) sA by (meson nth_mem subsetD)
  have kh': "key_heap f l (pop_heap cmp c)"
    unfolding r using adjust_heap_heap[OF ag s vA l0(1) l0(3) hh] .
  have len: "length (pq_pop cmp c) = l" using pq_pop_length[of cmp c] l_def by simp
  have "f (pq_pop cmp c ! i) \<le> f (pq_pop cmp c ! ((i - 1) div 2))" if i: "0 < i" "i < l" for i
  proof -
    have "(i - 1) div 2 < l" using i by linarith
    then show ?thesis
      using kh' i len unfolding key_heap_def pq_pop_def by (simp add: nth_butlast)
  qed
  then show ?thesis unfolding key_heap_def len by blast
qed

lemma key_heap_root:
  assumes kh: "key_heap f (length c) c"
  shows "i < length c \<Longrightarrow> f (c ! i) \<le> f (c ! 0)"
proof (induction i rule: less_induct)
  case (less i)
  show ?case
  proof (cases "i = 0")
    case True
    then show ?thesis by simp
  next
    case False
    let ?p = "(i - 1) div 2"
    have p: "?p < i" using False by linarith
    have "f (c ! i) \<le> f (c ! ?p)"
      using kh False less.prems unfolding key_heap_def by simp
    also have "\<dots> \<le> f (c ! 0)"
      using less.IH[OF p] p less.prems by simp
    finally show ?thesis .
  qed
qed

lemma key_heap_top: "key_heap f (length c) c \<Longrightarrow> x \<in> set c \<Longrightarrow> f x \<le> f (hd c)"
proof -
  assume kh: "key_heap f (length c) c" and x: "x \<in> set c"
  then obtain i where i: "i < length c" "c ! i = x" by (meson in_set_conv_nth)
  have "c \<noteq> []" using x by auto
  then have "hd c = c ! 0" by (simp add: hd_conv_nth)
  then show ?thesis using key_heap_root[OF kh i(1)] i(2) by simp
qed

lemma key_heap_update_root:
  assumes kh: "key_heap f (length c) c" and fy: "f y = f (c ! 0)"
  shows "key_heap f (length (c[0 := y])) (c[0 := y])"
  unfolding key_heap_def
proof (intro allI impI)
  fix i assume i: "0 < i \<and> i < length (c[0 := y])"
  then have il: "i < length c" by simp
  have A: "f (c ! i) \<le> f (c ! ((i - 1) div 2))"
    using kh i il unfolding key_heap_def by simp
  show "f (c[0 := y] ! i) \<le> f (c[0 := y] ! ((i - 1) div 2))"
  proof (cases "(i - 1) div 2 = 0")
    case True
    have "0 < length c" using il by linarith
    then have "c[0 := y] ! 0 = y" by simp
    then show ?thesis using True A i il fy by simp
  next
    case False
    then show ?thesis using A i by simp
  qed
qed

lemma pq_push_single: "pq_push cmp [] x = [x]"
  by (simp add: pq_push_def push_heap_def push_heap_impl.simps)

section \<open>The matching loop\<close>

lemma match_orders_not_crossing: "\<not> crossing (match_orders b)"
  by (induction b rule: match_orders.induct) (simp add: match_orders.simps)

lemma match_step_mutex: "book_mutex (match_step b) = book_mutex b"
  by (simp add: match_step_def Let_def)

lemma match_orders_mutex: "book_mutex (match_orders b) = book_mutex b"
  by (induction b rule: match_orders.induct) (simp add: match_orders.simps match_step_mutex)

lemma crossing_mutex_irrelevant: "crossing (b\<lparr>book_mutex := m\<rparr>) = crossing b"
  by (simp add: crossing_def)

lemma add_order_Some:
  "\<not> book_mutex b \<Longrightarrow> \<exists>b'. add_order order b = Some b' \<and> \<not> book_mutex b' \<and> \<not> crossing b'"
  by (simp add: add_order_def Let_def crossing_mutex_irrelevant match_orders_not_crossing)

lemma fill_top_mset:
  assumes "c \<noteq> []"
  shows "mset (fill_top c mq) =
     (mset c - {#pq_top c#}) +
     (if quantity (pq_top c) - mq = 0 then {#}
      else {#(pq_top c)\<lparr>quantity := quantity (pq_top c) - mq\<rparr>#})"
proof (cases "quantity (pq_top c) = mq")
  case True
  have "mset (pq_pop OrderCompare c) = mset c - {#hd c#}"
    using pq_pop_mset[OF assms, of OrderCompare] by (metis add_mset_remove_trivial)
  then show ?thesis using True by (simp add: fill_top_def pq_top_def)
next
  case False
  have t: "c ! 0 = hd c" using assms by (simp add: hd_conv_nth)
  have "mset (c[0 := y]) = add_mset y (mset c - {#hd c#})" for y
    using assms t by (simp add: mset_update)
  then show ?thesis using False t by (simp add: fill_top_def pq_top_def)
qed

lemma matched_quantity_min:
  "sint (matched_quantity b) =
     min (sint (quantity (pq_top (buy_orders b)))) (sint (quantity (pq_top (sell_orders b))))"
  by (simp add: matched_quantity_def Let_def word_sless_alt min_def)

section \<open>The invariant of the book\<close>

lemma squash_less:
  fixes x y :: real
  shows "x / (1 + \<bar>x\<bar>) < y / (1 + \<bar>y\<bar>) \<longleftrightarrow> x < y"
proof -
  have px: "0 < 1 + \<bar>x\<bar>" and py: "0 < 1 + \<bar>y\<bar>" by simp_all
  have "x / (1 + \<bar>x\<bar>) < y / (1 + \<bar>y\<bar>) \<longleftrightarrow> x * (1 + \<bar>y\<bar>) < y * (1 + \<bar>x\<bar>)"
    using px py by (simp add: divide_less_eq less_divide_eq mult.commute)
  also have "\<dots> \<longleftrightarrow> x < y"
  proof (cases "0 \<le> x"; cases "0 \<le> y")
    assume "0 \<le> x" "0 \<le> y"
    then show ?thesis by (simp add: algebra_simps)
  next
    assume a: "0 \<le> x" "\<not> 0 \<le> y"
    then have "y * (1 + \<bar>x\<bar>) < 0" by (simp add: mult_neg_pos)
    moreover have "0 \<le> x * (1 + \<bar>y\<bar>)" using a by simp
    ultimately show ?thesis using a by linarith
  next
    assume a: "\<not> 0 \<le> x" "0 \<le> y"
    then have "x * (1 + \<bar>y\<bar>) < 0" by (simp add: mult_neg_pos)
    moreover have "0 \<le> y * (1 + \<bar>x\<bar>)" using a by simp
    ultimately show ?thesis using a by linarith
  next
    assume "\<not> 0 \<le> x" "\<not> 0 \<le> y"
    then show ?thesis by (simp add: algebra_simps)
  qed
  finally show ?thesis .
qed

lemma squash_le:
  fixes x y :: real
  shows "x / (1 + \<bar>x\<bar>) \<le> y / (1 + \<bar>y\<bar>) \<longleftrightarrow> x \<le> y"
  using squash_less[of y x] by (simp add: not_less[symmetric])

lemma squash_bounds:
  fixes x :: real
  shows "- 1 < x / (1 + \<bar>x\<bar>)" "x / (1 + \<bar>x\<bar>) < 1"
proof -
  have p: "0 < 1 + \<bar>x\<bar>" by simp
  show "- 1 < x / (1 + \<bar>x\<bar>)" using p by (simp add: less_divide_eq)
  show "x / (1 + \<bar>x\<bar>) < 1" using p by (simp add: divide_less_eq)
qed

lemma dless_order_key: "a \<noteq> NaN \<Longrightarrow> b \<noteq> NaN \<Longrightarrow> dless a b = (order_key a < order_key b)"
  using squash_bounds by (cases a; cases b) (simp_all add: squash_less less_imp_le not_less)

lemma dgreater_order_key:
  "a \<noteq> NaN \<Longrightarrow> b \<noteq> NaN \<Longrightarrow> dgreater a b = (order_key b < order_key a)"
  by (simp add: dgreater_def dless_order_key)

lemma dge_order_key: "a \<noteq> NaN \<Longrightarrow> b \<noteq> NaN \<Longrightarrow> dge a b = (order_key b \<le> order_key a)"
  using squash_bounds by (cases a; cases b) (simp_all add: squash_le less_imp_le not_le)

lemma dge_iff: "dge a b \<longleftrightarrow> a \<noteq> NaN \<and> b \<noteq> NaN \<and> \<not> dless a b"
  by (cases a; cases b) auto

lemma agrees_buy:
  "agrees OrderCompare (\<lambda>x. order_key (price x)) {x. is_buy x = True \<and> price x \<noteq> NaN}"
  by (simp add: agrees_def OrderCompare_def dless_order_key)

lemma agrees_sell:
  "agrees OrderCompare (\<lambda>x. - order_key (price x)) {x. is_buy x = False \<and> price x \<noteq> NaN}"
  by (simp add: agrees_def OrderCompare_def dgreater_order_key)

lemma book_inv_new: "book_inv (new_OrderBook s)"
  by (simp add: book_inv_def new_OrderBook_def key_heap_def)

lemma book_inv_mutex: "book_inv (b\<lparr>book_mutex := m\<rparr>) = book_inv b"
  by (simp add: book_inv_def)

lemma book_inv_push_buy:
  assumes "book_inv b" "is_buy x" "price x \<noteq> NaN"
  shows "book_inv (b\<lparr>buy_orders := pq_push OrderCompare (buy_orders b) x\<rparr>)"
proof -
  have s: "set (buy_orders b) \<subseteq> {x. is_buy x = True \<and> price x \<noteq> NaN}"
    using assms(1) by (auto simp: book_inv_def)
  have k: "key_heap (\<lambda>x. order_key (price x)) (length (buy_orders b)) (buy_orders b)"
    using assms(1) by (simp add: book_inv_def)
  have "key_heap (\<lambda>x. order_key (price x)) (length (pq_push OrderCompare (buy_orders b) x))
          (pq_push OrderCompare (buy_orders b) x)"
    using pq_push_heap[OF agrees_buy s _ k, of x] assms(2,3) by simp
  then show ?thesis
    using assms by (simp add: book_inv_def pq_push_set)
qed

lemma book_inv_push_sell:
  assumes "book_inv b" "\<not> is_buy x" "price x \<noteq> NaN"
  shows "book_inv (b\<lparr>sell_orders := pq_push OrderCompare (sell_orders b) x\<rparr>)"
proof -
  have s: "set (sell_orders b) \<subseteq> {x. is_buy x = False \<and> price x \<noteq> NaN}"
    using assms(1) by (auto simp: book_inv_def)
  have k: "key_heap (\<lambda>x. - order_key (price x)) (length (sell_orders b)) (sell_orders b)"
    using assms(1) by (simp add: book_inv_def)
  have "key_heap (\<lambda>x. - order_key (price x)) (length (pq_push OrderCompare (sell_orders b) x))
          (pq_push OrderCompare (sell_orders b) x)"
    using pq_push_heap[OF agrees_sell s _ k, of x] assms(2,3) by simp
  then show ?thesis
    using assms by (simp add: book_inv_def pq_push_set)
qed

lemma fill_top_inv:
  assumes ag: "agrees OrderCompare f {x. is_buy x = side \<and> price x \<noteq> NaN}"
    and fq: "\<And>x q. f (x\<lparr>quantity := q\<rparr>) = f x"
    and s: "set c \<subseteq> {x. is_buy x = side \<and> price x \<noteq> NaN}"
    and k: "key_heap f (length c) c" and ne: "c \<noteq> []"
  shows "set (fill_top c mq) \<subseteq> {x. is_buy x = side \<and> price x \<noteq> NaN} \<and>
         key_heap f (length (fill_top c mq)) (fill_top c mq)"
proof (cases "quantity (pq_top c) = mq")
  case True
  then have e: "fill_top c mq = pq_pop OrderCompare c" by (simp add: fill_top_def)
  show ?thesis unfolding e
    using pq_pop_set[OF ne, of OrderCompare] s pq_pop_heap[OF ag s k] by blast
next
  case False
  define y where "y = (c ! 0)\<lparr>quantity := quantity (c ! 0) - mq\<rparr>"
  have e: "fill_top c mq = c[0 := y]" using False by (simp add: fill_top_def y_def)
  have c0: "c ! 0 \<in> set c" using ne by simp
  then have ys: "is_buy y = side \<and> price y \<noteq> NaN" using s by (auto simp: y_def)
  have fy: "f y = f (c ! 0)" by (simp add: y_def fq)
  have "set (c[0 := y]) \<subseteq> insert y (set c)" by (rule set_update_subset_insert)
  then have "set (c[0 := y]) \<subseteq> {x. is_buy x = side \<and> price x \<noteq> NaN}" using ys s by auto
  then show ?thesis unfolding e
    using key_heap_update_root[OF k fy] by simp
qed

lemma book_inv_match_step:
  assumes inv: "book_inv b" and cr: "crossing b"
  shows "book_inv (match_step b)"
proof -
  have ne: "buy_orders b \<noteq> []" "sell_orders b \<noteq> []"
    using cr by (simp_all add: crossing_def)
  have sb: "set (buy_orders b) \<subseteq> {x. is_buy x = True \<and> price x \<noteq> NaN}"
    and ss: "set (sell_orders b) \<subseteq> {x. is_buy x = False \<and> price x \<noteq> NaN}"
    and kb: "key_heap (\<lambda>x. order_key (price x)) (length (buy_orders b)) (buy_orders b)"
    and ks: "key_heap (\<lambda>x. - order_key (price x)) (length (sell_orders b)) (sell_orders b)"
    using inv by (auto simp: book_inv_def)
  have B: "set (fill_top (buy_orders b) (matched_quantity b)) \<subseteq> {x. is_buy x = True \<and> price x \<noteq> NaN} \<and>
      key_heap (\<lambda>x. order_key (price x)) (length (fill_top (buy_orders b) (matched_quantity b)))
        (fill_top (buy_orders b) (matched_quantity b))"
    by (rule fill_top_inv[OF agrees_buy _ sb kb ne(1)]) simp
  have S: "set (fill_top (sell_orders b) (matched_quantity b)) \<subseteq> {x. is_buy x = False \<and> price x \<noteq> NaN} \<and>
      key_heap (\<lambda>x. - order_key (price x)) (length (fill_top (sell_orders b) (matched_quantity b)))
        (fill_top (sell_orders b) (matched_quantity b))"
    by (rule fill_top_inv[OF agrees_sell _ ss ks ne(2)]) simp
  show ?thesis
    using B S by (auto simp: book_inv_def match_step_def Let_def)
qed

lemma book_inv_match_orders: "book_inv b \<Longrightarrow> book_inv (match_orders b)"
proof (induction b rule: match_orders.induct)
  case (1 b)
  show ?case
  proof (cases "crossing b")
    case True
    then show ?thesis
      using 1 book_inv_match_step[OF "1.prems" True] by (subst match_orders.simps) simp
  next
    case False
    then show ?thesis using 1 by (subst match_orders.simps) simp
  qed
qed

lemma book_inv_add_order:
  assumes "book_inv b" "add_order order b = Some b'" "price order \<noteq> NaN"
  shows "book_inv b' \<and> \<not> book_mutex b'"
proof -
  have m: "\<not> book_mutex b" using assms(2) by (auto simp: add_order_def split: if_splits)
  let ?b1 = "b\<lparr>book_mutex := True\<rparr>"
  have i1: "book_inv ?b1" using assms(1) by (simp add: book_inv_mutex)
  show ?thesis
  proof (cases "is_buy order")
    case True
    have "book_inv (match_orders (?b1\<lparr>buy_orders := pq_push OrderCompare (buy_orders ?b1) order\<rparr>))"
      using book_inv_match_orders[OF book_inv_push_buy[OF i1 True assms(3)]] .
    then show ?thesis
      using assms(2) m True by (auto simp: add_order_def Let_def book_inv_mutex)
  next
    case False
    have "book_inv (match_orders (?b1\<lparr>sell_orders := pq_push OrderCompare (sell_orders ?b1) order\<rparr>))"
      using book_inv_match_orders[OF book_inv_push_sell[OF i1 False assms(3)]] .
    then show ?thesis
      using assms(2) m False by (auto simp: add_order_def Let_def book_inv_mutex)
  qed
qed

lemma add_orders_inv:
  "book_inv b \<Longrightarrow> \<not> book_mutex b \<Longrightarrow> \<forall>x\<in>set orders. price x \<noteq> NaN \<Longrightarrow>
     \<exists>b'. add_orders orders b = Some b' \<and> book_inv b' \<and> \<not> book_mutex b'"
proof (induction orders arbitrary: b)
  case Nil
  then show ?case by simp
next
  case (Cons order orders)
  obtain b1 where b1: "add_order order b = Some b1"
    using add_order_Some[OF Cons.prems(2), of order] by blast
  have "price order \<noteq> NaN" using Cons.prems(3) by simp
  then have "book_inv b1 \<and> \<not> book_mutex b1" using book_inv_add_order[OF Cons.prems(1) b1] by simp
  then show ?case using Cons.IH[of b1] b1 Cons.prems(3) by simp
qed

lemma book_inv_top:
  assumes "book_inv b"
  shows "(\<forall>x\<in>set (buy_orders b). dge (price (pq_top (buy_orders b))) (price x)) \<and>
         (\<forall>x\<in>set (sell_orders b). dge (price x) (price (pq_top (sell_orders b))))"
proof -
  have kb: "key_heap (\<lambda>x. order_key (price x)) (length (buy_orders b)) (buy_orders b)"
    and ks: "key_heap (\<lambda>x. - order_key (price x)) (length (sell_orders b)) (sell_orders b)"
    and nb: "\<forall>x\<in>set (buy_orders b). price x \<noteq> NaN"
    and ns: "\<forall>x\<in>set (sell_orders b). price x \<noteq> NaN"
    using assms by (auto simp: book_inv_def)
  have "dge (price (pq_top (buy_orders b))) (price x)" if "x \<in> set (buy_orders b)" for x
  proof -
    have "buy_orders b \<noteq> []" using that by auto
    then have "hd (buy_orders b) \<in> set (buy_orders b)" by simp
    then show ?thesis
      using key_heap_top[OF kb that] nb that by (simp add: pq_top_def dge_order_key)
  qed
  moreover have "dge (price x) (price (pq_top (sell_orders b)))" if "x \<in> set (sell_orders b)" for x
  proof -
    have "sell_orders b \<noteq> []" using that by auto
    then have "hd (sell_orders b) \<in> set (sell_orders b)" by simp
    then show ?thesis
      using key_heap_top[OF ks that] ns that by (simp add: pq_top_def dge_order_key)
  qed
  ultimately show ?thesis by blast
qed

lemma add_orders_not_crossing:
  "\<not> crossing b \<Longrightarrow> add_orders orders b = Some b' \<Longrightarrow> \<not> crossing b'"
proof (induction orders arbitrary: b)
  case Nil
  then show ?case by simp
next
  case (Cons order orders)
  obtain b1 where b1: "add_order order b = Some b1" "add_orders orders b1 = Some b'"
    using Cons.prems(2) by (auto split: option.splits)
  have m: "\<not> book_mutex b" using b1(1) by (auto simp: add_order_def split: if_splits)
  have "\<not> crossing b1" using add_order_Some[OF m, of order] b1(1) by auto
  then show ?case using Cons.IH[OF _ b1(2)] by simp
qed

lemma book_inv_uncrossed:
  assumes "book_inv b" "\<not> crossing b" "x \<in> set (buy_orders b)" "y \<in> set (sell_orders b)"
  shows "dless (price x) (price y)"
proof -
  have ne: "buy_orders b \<noteq> []" "sell_orders b \<noteq> []" using assms(3,4) by auto
  let ?tb = "pq_top (buy_orders b)" and ?ts = "pq_top (sell_orders b)"
  have tb: "?tb \<in> set (buy_orders b)" and ts: "?ts \<in> set (sell_orders b)"
    using ne by (simp_all add: pq_top_def)
  have n: "price x \<noteq> NaN" "price y \<noteq> NaN" "price ?tb \<noteq> NaN" "price ?ts \<noteq> NaN"
    using assms(1,3,4) tb ts by (auto simp: book_inv_def)
  have "dge (price ?tb) (price x)" and "dge (price y) (price ?ts)"
    using book_inv_top[OF assms(1)] assms(3,4) by simp_all
  then have "order_key (price x) \<le> order_key (price ?tb)"
    and "order_key (price ?ts) \<le> order_key (price y)"
    using n by (simp_all add: dge_order_key)
  moreover have "\<not> dge (price ?tb) (price ?ts)"
    using assms(2) ne by (simp add: crossing_def)
  then have "order_key (price ?tb) < order_key (price ?ts)"
    using n by (simp add: dge_order_key)
  ultimately have "order_key (price x) < order_key (price y)" by linarith
  then show ?thesis using n by (simp add: dless_order_key)
qed

lemma not_dge_dless: "a \<noteq> NaN \<Longrightarrow> b \<noteq> NaN \<Longrightarrow> \<not> dge a b \<Longrightarrow> dless a b"
  by (cases a; cases b) simp_all

lemma fill_top_prices:
  assumes "\<forall>x\<in>set c. price x \<noteq> NaN" "c \<noteq> []"
  shows "\<forall>x\<in>set (fill_top c mq). price x \<noteq> NaN"
proof (cases "quantity (pq_top c) = mq")
  case True
  then show ?thesis
    using pq_pop_set[OF assms(2), of OrderCompare] assms(1) by (auto simp: fill_top_def)
next
  case False
  define y where "y = (c ! 0)\<lparr>quantity := quantity (c ! 0) - mq\<rparr>"
  have "c ! 0 \<in> set c" using assms(2) by simp
  then have "price y \<noteq> NaN" using assms(1) by (simp add: y_def)
  moreover have "set (c[0 := y]) \<subseteq> insert y (set c)" by (rule set_update_subset_insert)
  moreover have "fill_top c mq = c[0 := y]" using False by (simp add: fill_top_def y_def)
  ultimately show ?thesis using assms(1) by auto
qed

lemma no_nan_prices_match_step:
  assumes "no_nan_prices b" "crossing b"
  shows "no_nan_prices (match_step b)"
proof -
  have ne: "buy_orders b \<noteq> []" "sell_orders b \<noteq> []"
    using assms(2) by (simp_all add: crossing_def)
  show ?thesis
    using assms(1) fill_top_prices[OF _ ne(1), of "matched_quantity b"]
      fill_top_prices[OF _ ne(2), of "matched_quantity b"]
    by (simp add: no_nan_prices_def match_step_def Let_def)
qed

lemma no_nan_prices_match_orders: "no_nan_prices b \<Longrightarrow> no_nan_prices (match_orders b)"
proof (induction b rule: match_orders.induct)
  case (1 b)
  show ?case
  proof (cases "crossing b")
    case True
    then show ?thesis
      using 1 no_nan_prices_match_step[OF "1.prems" True] by (subst match_orders.simps) simp
  next
    case False
    then show ?thesis using 1 by (subst match_orders.simps) simp
  qed
qed

lemma no_nan_prices_add_order:
  assumes "no_nan_prices b" "price order \<noteq> NaN" "add_order order b = Some b'"
  shows "no_nan_prices b'"
proof -
  have m: "\<not> book_mutex b" using assms(3) by (auto simp: add_order_def split: if_splits)
  let ?b2 = "if is_buy order
             then b\<lparr>book_mutex := True, buy_orders := pq_push OrderCompare (buy_orders b) order\<rparr>
             else b\<lparr>book_mutex := True, sell_orders := pq_push OrderCompare (sell_orders b) order\<rparr>"
  have "no_nan_prices ?b2"
    using assms(1,2) by (simp add: no_nan_prices_def pq_push_set)
  then have "no_nan_prices (match_orders ?b2)" by (rule no_nan_prices_match_orders)
  moreover have "b' = (match_orders ?b2)\<lparr>book_mutex := False\<rparr>"
    using assms(3) m by (auto simp: add_order_def Let_def)
  ultimately show ?thesis by (simp add: no_nan_prices_def)
qed

section \<open>The position under positive quantities\<close>

lemma sint_add_cint:
  fixes a b :: cint
  assumes "0 \<le> sint a + sint b" "sint a + sint b < 2 ^ 31"
  shows "sint (a + b) = sint a + sint b"
  using assms by (simp add: sint_word_add signed_take_bit_int_eq_self)

lemma sint_diff_cint:
  fixes a b :: cint
  assumes "0 \<le> sint a - sint b" "sint a - sint b < 2 ^ 31"
  shows "sint (a - b) = sint a - sint b"
  using assms by (simp add: sint_word_diff signed_take_bit_int_eq_self)

lemma volume_mset: "mset xs = mset ys \<Longrightarrow> volume xs = volume ys"
proof -
  assume "mset xs = mset ys"
  then have "sum_mset (image_mset (\<lambda>x. sint (quantity x)) (mset xs)) =
             sum_mset (image_mset (\<lambda>x. sint (quantity x)) (mset ys))" by simp
  then have "sum_mset (mset (map (\<lambda>x. sint (quantity x)) xs)) =
             sum_mset (mset (map (\<lambda>x. sint (quantity x)) ys))" by simp
  then show ?thesis unfolding volume_def by (simp only: sum_mset_sum_list)
qed

lemma volume_Cons [simp]: "volume (x # xs) = sint (quantity x) + volume xs"
  by (simp add: volume_def)

lemma volume_Nil [simp]: "volume [] = 0"
  by (simp add: volume_def)

lemma volume_nonneg: "\<forall>x\<in>set xs. 0 < sint (quantity x) \<Longrightarrow> 0 \<le> volume xs"
  by (induction xs) auto

lemma volume_pq_push: "volume (pq_push cmp c x) = sint (quantity x) + volume c"
proof -
  have "mset (pq_push cmp c x) = mset (x # c)" by (simp add: pq_push_mset)
  then have "volume (pq_push cmp c x) = volume (x # c)" by (rule volume_mset)
  then show ?thesis by simp
qed

lemma volume_pq_pop: "c \<noteq> [] \<Longrightarrow> volume c = sint (quantity (hd c)) + volume (pq_pop cmp c)"
proof -
  assume "c \<noteq> []"
  then have "mset c = mset (hd c # pq_pop cmp c)" using pq_pop_mset[of c cmp] by simp
  then have "volume c = volume (hd c # pq_pop cmp c)" by (rule volume_mset)
  then show ?thesis by simp
qed

lemma fill_top_volume:
  assumes ne: "c \<noteq> []" and pos: "\<forall>x\<in>set c. 0 < sint (quantity x)"
    and mq: "0 < sint mq" "sint mq \<le> sint (quantity (pq_top c))"
  shows "volume (fill_top c mq) = volume c - sint mq \<and>
         (\<forall>x\<in>set (fill_top c mq). 0 < sint (quantity x))"
proof (cases "quantity (pq_top c) = mq")
  case True
  have "volume c = sint mq + volume (pq_pop OrderCompare c)"
    using volume_pq_pop[OF ne, of OrderCompare] True by (simp add: pq_top_def)
  moreover have "set (pq_pop OrderCompare c) \<subseteq> set c" using pq_pop_set[OF ne] .
  ultimately show ?thesis using True pos by (auto simp: fill_top_def)
next
  case False
  obtain t rest where c: "c = t # rest" using ne by (cases c) auto
  have tq: "quantity t \<noteq> mq" "sint mq \<le> sint (quantity t)" "0 < sint (quantity t)"
    using False mq(2) pos c by (simp_all add: pq_top_def)
  have lt: "sint mq < sint (quantity t)"
  proof -
    have "sint mq \<noteq> sint (quantity t)"
      using tq(1) signed_word_eqI[of mq "quantity t", where ?'a = int] by auto
    then show ?thesis using tq(2) by linarith
  qed
  have up: "sint (quantity t) < 2 ^ 31" using sint_less[of "quantity t"] by simp
  have d: "sint (quantity t - mq) = sint (quantity t) - sint mq"
    using lt mq(1) up by (intro sint_diff_cint) auto
  have f: "fill_top c mq = t\<lparr>quantity := quantity t - mq\<rparr> # rest"
    using False c by (simp add: fill_top_def pq_top_def)
  show ?thesis unfolding f using d lt pos c by auto
qed

lemma match_step_volume:
  assumes inv: "volume_inv B b" and cr: "crossing b" and B: "B < 2 ^ 31"
  shows "volume_inv B (match_step b) \<and> 0 < sint (matched_quantity b) \<and>
         sint (position' (match_step b)) = sint (position' b) + sint (matched_quantity b)"
proof -
  let ?mq = "matched_quantity b"
  have ne: "buy_orders b \<noteq> []" "sell_orders b \<noteq> []"
    using cr by (simp_all add: crossing_def)
  have pb: "\<forall>x\<in>set (buy_orders b). 0 < sint (quantity x)"
    and ps: "\<forall>x\<in>set (sell_orders b). 0 < sint (quantity x)"
    and p0: "0 \<le> sint (position' b)"
    and bound: "sint (position' b) + volume (buy_orders b) \<le> B"
    using inv by (simp_all add: volume_inv_def)
  have tb: "0 < sint (quantity (pq_top (buy_orders b)))"
    using pb ne(1) by (simp add: pq_top_def)
  have ts: "0 < sint (quantity (pq_top (sell_orders b)))"
    using ps ne(2) by (simp add: pq_top_def)
  have mq: "0 < sint ?mq" "sint ?mq \<le> sint (quantity (pq_top (buy_orders b)))"
    "sint ?mq \<le> sint (quantity (pq_top (sell_orders b)))"
    using tb ts matched_quantity_min[of b] by simp_all
  have Fb: "volume (fill_top (buy_orders b) ?mq) = volume (buy_orders b) - sint ?mq"
    "\<forall>x\<in>set (fill_top (buy_orders b) ?mq). 0 < sint (quantity x)"
    using fill_top_volume[OF ne(1) pb mq(1) mq(2)] by simp_all
  have Fs: "\<forall>x\<in>set (fill_top (sell_orders b) ?mq). 0 < sint (quantity x)"
    using fill_top_volume[OF ne(2) ps mq(1) mq(3)] by simp
  obtain t rest where c: "buy_orders b = t # rest" using ne(1) by (cases "buy_orders b") auto
  have "0 \<le> volume rest" using pb c volume_nonneg[of rest] by simp
  then have "sint (quantity (pq_top (buy_orders b))) \<le> volume (buy_orders b)"
    using c by (simp add: pq_top_def)
  then have le: "sint (position' b) + sint ?mq \<le> B" using mq(2) bound by linarith
  have s: "sint (position' b + ?mq) = sint (position' b) + sint ?mq"
    using p0 mq(1) le B by (intro sint_add_cint) auto
  have P: "position' (match_step b) = position' b + ?mq"
    "buy_orders (match_step b) = fill_top (buy_orders b) ?mq"
    "sell_orders (match_step b) = fill_top (sell_orders b) ?mq"
    by (simp_all add: match_step_def Let_def)
  show ?thesis
    unfolding volume_inv_def P using Fb Fs s p0 mq(1) bound by auto
qed

lemma match_orders_volume:
  "volume_inv B b \<Longrightarrow> B < 2 ^ 31 \<Longrightarrow>
     volume_inv B (match_orders b) \<and> sint (position' b) \<le> sint (position' (match_orders b))"
proof (induction b rule: match_orders.induct)
  case (1 b)
  show ?case
  proof (cases "crossing b")
    case True
    have st: "volume_inv B (match_step b)" "0 < sint (matched_quantity b)"
      "sint (position' (match_step b)) = sint (position' b) + sint (matched_quantity b)"
      using match_step_volume[OF "1.prems"(1) True "1.prems"(2)] by simp_all
    have "volume_inv B (match_orders (match_step b)) \<and>
        sint (position' (match_step b)) \<le> sint (position' (match_orders (match_step b)))"
      using "1.IH"[OF True st(1) "1.prems"(2)] .
    then show ?thesis
      using True st by (subst (1 2) match_orders.simps) simp
  next
    case False
    then show ?thesis using "1.prems" by (subst (1 2) match_orders.simps) simp
  qed
qed

lemma volume_inv_mono: "volume_inv B b \<Longrightarrow> B \<le> B' \<Longrightarrow> volume_inv B' b"
  by (auto simp: volume_inv_def)

lemma volume_inv_mutex: "volume_inv B (b\<lparr>book_mutex := m\<rparr>) = volume_inv B b"
  by (simp add: volume_inv_def)

lemma volume_inv_new: "volume_inv 0 (new_OrderBook s)"
  by (simp add: volume_inv_def new_OrderBook_def)

lemma volume_inv_push_buy:
  assumes "volume_inv B b" "0 < sint (quantity x)"
  shows "volume_inv (B + sint (quantity x)) (b\<lparr>buy_orders := pq_push OrderCompare (buy_orders b) x\<rparr>)"
  using assms by (auto simp: volume_inv_def pq_push_set volume_pq_push)

lemma volume_inv_push_sell:
  assumes "volume_inv B b" "0 < sint (quantity x)"
  shows "volume_inv B (b\<lparr>sell_orders := pq_push OrderCompare (sell_orders b) x\<rparr>)"
  using assms by (auto simp: volume_inv_def pq_push_set)

lemma add_order_volume:
  assumes inv: "volume_inv B b" and m: "\<not> book_mutex b" and q: "0 < sint (quantity order)"
    and B: "B + (if is_buy order then sint (quantity order) else 0) < 2 ^ 31"
  shows "\<exists>b'. add_order order b = Some b' \<and> \<not> book_mutex b' \<and>
           volume_inv (B + (if is_buy order then sint (quantity order) else 0)) b' \<and>
           sint (position' b) \<le> sint (position' b')"
proof -
  let ?b1 = "b\<lparr>book_mutex := True\<rparr>"
  let ?B = "B + (if is_buy order then sint (quantity order) else 0)"
  let ?b2 = "if is_buy order
             then ?b1\<lparr>buy_orders := pq_push OrderCompare (buy_orders ?b1) order\<rparr>
             else ?b1\<lparr>sell_orders := pq_push OrderCompare (sell_orders ?b1) order\<rparr>"
  have i1: "volume_inv B ?b1" using inv by (simp add: volume_inv_mutex)
  have i2: "volume_inv ?B ?b2"
    using volume_inv_push_buy[OF i1 q] volume_inv_push_sell[OF i1 q] by simp
  have p2: "position' ?b2 = position' b" by simp
  have r: "volume_inv ?B (match_orders ?b2) \<and> sint (position' ?b2) \<le> sint (position' (match_orders ?b2))"
    using match_orders_volume[OF i2 B] .
  have a: "add_order order b = Some ((match_orders ?b2)\<lparr>book_mutex := False\<rparr>)"
    using m by (simp add: add_order_def Let_def)
  show ?thesis
    unfolding a using r p2 by (simp add: volume_inv_mutex)
qed

lemma buy_volume_Cons:
  "buy_volume (x # xs) = (if is_buy x then sint (quantity x) else 0) + buy_volume xs"
  by (simp add: buy_volume_def)

lemma buy_volume_nonneg: "\<forall>x\<in>set xs. 0 < sint (quantity x) \<Longrightarrow> 0 \<le> buy_volume xs"
  unfolding buy_volume_def by (rule volume_nonneg) simp

lemma add_orders_volume:
  "volume_inv B b \<Longrightarrow> \<not> book_mutex b \<Longrightarrow> \<forall>x\<in>set orders. 0 < sint (quantity x) \<Longrightarrow>
     B + buy_volume orders < 2 ^ 31 \<Longrightarrow>
     \<exists>b'. add_orders orders b = Some b' \<and> \<not> book_mutex b' \<and>
       volume_inv (B + buy_volume orders) b' \<and> sint (position' b) \<le> sint (position' b')"
proof (induction orders arbitrary: B b)
  case Nil
  then show ?case by (simp add: buy_volume_def)
next
  case (Cons x xs)
  let ?B = "B + (if is_buy x then sint (quantity x) else 0)"
  have q: "0 < sint (quantity x)" and qs: "\<forall>y\<in>set xs. 0 < sint (quantity y)"
    using Cons.prems(3) by simp_all
  have nn: "0 \<le> buy_volume xs" using buy_volume_nonneg[OF qs] .
  have B1: "?B < 2 ^ 31" using Cons.prems(4) nn by (simp add: buy_volume_Cons)
  obtain b1 where b1: "add_order x b = Some b1" "\<not> book_mutex b1" "volume_inv ?B b1"
    "sint (position' b) \<le> sint (position' b1)"
    using add_order_volume[OF Cons.prems(1) Cons.prems(2) q B1] by blast
  have B2: "?B + buy_volume xs < 2 ^ 31" using Cons.prems(4) by (simp add: buy_volume_Cons)
  obtain b' where b': "add_orders xs b1 = Some b'" "\<not> book_mutex b'"
    "volume_inv (?B + buy_volume xs) b'" "sint (position' b1) \<le> sint (position' b')"
    using Cons.IH[OF b1(3) b1(2) qs B2] by blast
  have e: "?B + buy_volume xs = B + buy_volume (x # xs)" by (simp add: buy_volume_Cons)
  show ?case
    using b1(1) b1(4) b' unfolding e by auto
qed

lemma buy_volume_append:
  "buy_volume (xs @ [x]) = buy_volume xs + (if is_buy x then sint (quantity x) else 0)"
  by (simp add: buy_volume_def volume_def)

section \<open>The engine between calls\<close>

lemma unlocked_new: "unlocked new_ExecutionEngine"
  by (simp add: unlocked_def new_ExecutionEngine_def)

lemma unlocked_book:
  assumes "unlocked e"
  shows "\<not> book_mutex (case order_books e s of None \<Rightarrow> new_OrderBook s | Some b \<Rightarrow> b)"
proof (cases "order_books e s")
  case None
  then show ?thesis by (simp add: new_OrderBook_def)
next
  case (Some b)
  then have "b \<in> ran (order_books e)" by (auto simp: ran_def)
  then show ?thesis using assms Some by (simp add: unlocked_def)
qed

lemma unlocked_update:
  assumes "unlocked e" "\<not> book_mutex b"
  shows "unlocked (e\<lparr>order_books := (order_books e)(s \<mapsto> b)\<rparr>)"
proof -
  have "ran ((order_books e)(s \<mapsto> b)) \<subseteq> insert b (ran (order_books e))"
    by (auto simp: ran_def split: if_splits)
  then show ?thesis using assms by (auto simp: unlocked_def)
qed

lemma submit_order_unlocked:
  assumes "unlocked e"
  shows "\<exists>g' e' book'.
     submit_order order g e = Some (fst (generate_order_id g), g', e') \<and> unlocked e' \<and>
     add_order (order\<lparr>order_id := fst (generate_order_id g)\<rparr>)
       (case order_books e (symbol order) of None \<Rightarrow> new_OrderBook (symbol order) | Some b \<Rightarrow> b)
       = Some book' \<and>
     order_books e' = (order_books e)(symbol order \<mapsto> book') \<and>
     market_data_callbacks e' = market_data_callbacks e \<and>
     trade_callbacks e' = trade_callbacks e"
proof -
  let ?book = "case order_books e (symbol order) of None \<Rightarrow> new_OrderBook (symbol order) | Some b \<Rightarrow> b"
  let ?o = "order\<lparr>order_id := fst (generate_order_id g)\<rparr>"
  have m: "\<not> engine_mutex e" using assms by (simp add: unlocked_def)
  obtain book' where b': "add_order ?o ?book = Some book'" "\<not> book_mutex book'"
    using add_order_Some[OF unlocked_book[OF assms, of "symbol order"], of ?o] by blast
  have "submit_order order g e =
      Some (fst (generate_order_id g), snd (generate_order_id g),
            e\<lparr>order_books := (order_books e)(symbol order \<mapsto> book')\<rparr>)"
    using m b'(1) by (simp add: submit_order_def Let_def case_prod_beta)
  then show ?thesis
    using unlocked_update[OF assms b'(2), of "symbol order"] b'(1) by simp
qed

lemma engine_step_unlocked:
  assumes "unlocked e"
  shows "\<exists>g' e'. engine_step c (g, e) = Some (g', e') \<and> unlocked e' \<and>
           dom (order_books e') = dom (order_books e) \<union> submitted_symbols [c]"
proof (cases c)
  case (Submit order)
  obtain g' e' book' where
    "submit_order order g e = Some (fst (generate_order_id g), g', e')" "unlocked e'"
    "order_books e' = (order_books e)(symbol order \<mapsto> book')"
    using submit_order_unlocked[OF assms, of order g] by blast
  then show ?thesis using Submit by auto
next
  case (SubscribeMarketData s cb)
  then show ?thesis using assms by (simp add: subscribe_market_data_def unlocked_def)
next
  case (UnsubscribeMarketData s)
  then show ?thesis using assms by (simp add: unsubscribe_market_data_def unlocked_def)
next
  case (SubscribeTrades s cb)
  then show ?thesis using assms by (simp add: subscribe_trades_def unlocked_def)
next
  case (UnsubscribeTrades s)
  then show ?thesis using assms by (simp add: unsubscribe_trades_def unlocked_def)
qed

lemma submitted_symbols_Cons:
  "submitted_symbols (c # cs) = submitted_symbols [c] \<union> submitted_symbols cs"
  by (cases c) auto

lemma engine_run_unlocked:
  "unlocked e \<Longrightarrow>
     \<exists>g' e'. engine_run cs (g, e) = Some (g', e') \<and> unlocked e' \<and>
       dom (order_books e') = dom (order_books e) \<union> submitted_symbols cs"
proof (induction cs arbitrary: g e)
  case Nil
  then show ?case by simp
next
  case (Cons c cs)
  obtain g1 e1 where s1: "engine_step c (g, e) = Some (g1, e1)" "unlocked e1"
    "dom (order_books e1) = dom (order_books e) \<union> submitted_symbols [c]"
    using engine_step_unlocked[OF Cons.prems, of c g] by blast
  obtain g' e' where r: "engine_run cs (g1, e1) = Some (g', e')" "unlocked e'"
    "dom (order_books e') = dom (order_books e1) \<union> submitted_symbols cs"
    using Cons.IH[OF s1(2), of g1] by blast
  have "dom (order_books e') = dom (order_books e) \<union> submitted_symbols (c # cs)"
    using r(3) s1(3) submitted_symbols_Cons[of c cs] by auto
  then show ?case using s1(1) r(1) r(2) by simp
qed

lemma add_order_rests:
  assumes a: "add_order order b = Some b'"
    and e: "(if is_buy order then sell_orders b else buy_orders b) = []"
  shows "order \<in> set (if is_buy order then buy_orders b' else sell_orders b')"
proof -
  have m: "\<not> book_mutex b" using a by (auto simp: add_order_def split: if_splits)
  show ?thesis
  proof (cases "is_buy order")
    case True
    let ?b2 = "b\<lparr>book_mutex := True, buy_orders := pq_push OrderCompare (buy_orders b) order\<rparr>"
    have "\<not> crossing ?b2" using e True by (simp add: crossing_def)
    then have "match_orders ?b2 = ?b2" by (subst match_orders.simps) simp
    then show ?thesis using a m True by (auto simp: add_order_def Let_def pq_push_set)
  next
    case False
    let ?b2 = "b\<lparr>book_mutex := True, sell_orders := pq_push OrderCompare (sell_orders b) order\<rparr>"
    have "\<not> crossing ?b2" using e False by (simp add: crossing_def)
    then have "match_orders ?b2 = ?b2" by (subst match_orders.simps) simp
    then show ?thesis using a m False by (auto simp: add_order_def Let_def pq_push_set)
  qed
qed

section \<open>The example orders and books evaluated\<close>

lemma add_order_resting_book:
  "add_order (order_of ''s1'' 95 50 False) resting_book =
     Some \<lparr>symbol' = ''AAPL'',
           buy_orders = [order_of ''b1'' 100 50 True],
           sell_orders = [order_of ''s0'' 110 10 False],
           position' = 50, average_price' = Finite (195 / 4), realized_pnl' = Finite (4875 / 2),
           book_mutex = False\<rparr>"
  by code_simp

lemma add_orders_spread_orders:
  "add_orders spread_orders (new_OrderBook ''AAPL'') =
     Some \<lparr>symbol' = ''AAPL'',
           buy_orders = [order_of ''b2'' 99 5 True, order_of ''b1'' 98 5 True],
           sell_orders = [order_of ''s2'' 100 5 False, order_of ''s1'' 101 5 False,
                          order_of ''s3'' 102 5 False],
           position' = 0, average_price' = Finite 0, realized_pnl' = Finite 0, book_mutex = False\<rparr>"
  by code_simp

lemma spread_orders_prices: "\<forall>x\<in>set spread_orders. price x \<noteq> NaN"
  by code_simp

lemma resting_book_prices: "no_nan_prices resting_book \<and> \<not> book_mutex resting_book"
  by code_simp

lemma resting_book_not_crossing: "\<not> crossing resting_book"
  by code_simp

lemma crossed_book_crossing: "crossing crossed_book"
  by code_simp

lemma crossed_book_matched:
  "matched_quantity crossed_book = 50 \<and> matched_price crossed_book = Finite (195 / 2)"
  by code_simp

lemma match_step_crossed_book:
  "match_step crossed_book =
     \<lparr>symbol' = ''AAPL'', buy_orders = [order_of ''b1'' 100 50 True], sell_orders = [],
      position' = 50, average_price' = Finite (195 / 4), realized_pnl' = Finite (4875 / 2),
      book_mutex = True\<rparr>"
  by code_simp

lemma example_calls_position:
  "(case engine_run example_calls (\<lambda>k. 0, new_ExecutionEngine) of
      None \<Rightarrow> None
    | Some (g, e) \<Rightarrow> engine_get_position e ''AAPL'') = Some 10"
  by code_simp

lemma submit_resting_engine:
  "(case submit_order (order_of [] 95 50 False) (\<lambda>k. 0) resting_engine of
      None \<Rightarrow> False
    | Some (oid, g', e') \<Rightarrow>
        oid = ''00000000-0000-0000-0000-000000000000'' \<and>
        order_books e' ''AAPL'' =
          Some \<lparr>symbol' = ''AAPL'',
                buy_orders = [order_of ''b1'' 100 50 True],
                sell_orders = [order_of ''s0'' 110 10 False],
                position' = 50, average_price' = Finite (195 / 4),
                realized_pnl' = Finite (4875 / 2), book_mutex = False\<rparr>)"
  by code_simp

lemma unlocked_resting_engine: "unlocked resting_engine"
  by (simp add: unlocked_def resting_engine_def resting_book_def)

lemma add_orders_positive_orders:
  "add_orders positive_orders (new_OrderBook ''AAPL'') = Some one_sided_book"
  by code_simp

lemma add_order_one_sided_book:
  "map_option (\<lambda>b. sint (position' b)) (add_order (order_of ''s2'' 95 5 False) one_sided_book)
     = Some 15"
  by code_simp

lemma positive_orders_quantities:
  "\<forall>x\<in>set (positive_orders @ [order_of ''s2'' 95 5 False]). 0 < sint (quantity x)"
  by code_simp

lemma positive_orders_buy_volume:
  "buy_volume (positive_orders @ [order_of ''s2'' 95 5 False]) = 20"
  by code_simp

section \<open>C1: the accounting of a match\<close>

text \<open>
  C1 says that the accounting of a match uses the state before the trade: a match that
  opens a position of 10 at the price 100 on a fresh book gives the average cost
  \<open>(0 * 0 + 100 * 10) / (0 + 10) = 100\<close> and leaves the realized P\&L at 0.  The code
  increments the position before it computes \<^verbatim>\<open>old_value\<close> and the denominator, and
  computes the realized P\&L from the average it has just assigned: on a fresh book,
  a buy of 10 at 100 followed by a sell of 10 at 100 is one match of 10 at 100, after
  which the average price is \<open>(0 * 10 + 100 * 10) / (10 + 10) = 50\<close> and the realized
  P\&L is \<open>(100 - 50) * 10 = 500\<close>.
\<close>

theorem C1_accounting_after_first_match:
  "add_orders
     [\<lparr>order_id = ''b1'', symbol = ''AAPL'', price = Finite 100, quantity = 10, is_buy = True\<rparr>,
      \<lparr>order_id = ''s1'', symbol = ''AAPL'', price = Finite 100, quantity = 10, is_buy = False\<rparr>]
     (new_OrderBook ''AAPL'')
   = Some \<lparr>symbol' = ''AAPL'', buy_orders = [], sell_orders = [], position' = 10,
            average_price' = Finite 50, realized_pnl' = Finite 500, book_mutex = False\<rparr>"
  by code_simp

section \<open>C2: one pass of the matching loop\<close>

text \<open>
  C2: the loop of \<^verbatim>\<open>match_orders\<close> runs its body (\<open>match_step\<close>) and goes on exactly
  when both sides are non-empty and the top buy price is at least the top sell price,
  that is, neither is NaN and the top buy price is not less than the top sell price;
  otherwise it stops and leaves the book as it is, and the book it returns is never in
  that condition.  In a pass the matched quantity is the minimum of the quantities of
  the two top orders (as signed integers) and the matched price is half the sum of
  their prices, for prices \<open>x\<close> and \<open>y\<close> that are numbers the midpoint \<open>(x + y) / 2\<close>.
  These are the quantity and the price the pass books: on each side the top order
  leaves the queue and comes back with its quantity reduced by the matched quantity
  exactly when the reduced quantity is not 0, and no other order is touched; the
  position grows by the matched quantity; the average price is assigned from the
  matched price and the matched quantity as in lines 98--100; the realized P\&L grows
  by the matched quantity times the difference of the matched price and the average
  price assigned in this pass (line 103).
\<close>

theorem match_step_fills_top_orders:
  "(crossing b \<longrightarrow>
      sint (matched_quantity b) =
        min (sint (quantity (pq_top (buy_orders b)))) (sint (quantity (pq_top (sell_orders b)))) \<and>
      matched_price b =
        ddiv (dadd (price (pq_top (buy_orders b))) (price (pq_top (sell_orders b)))) (Finite 2) \<and>
      (\<forall>x y. price (pq_top (buy_orders b)) = Finite x \<and>
             price (pq_top (sell_orders b)) = Finite y \<longrightarrow>
             y \<le> x \<and> matched_price b = Finite ((x + y) / 2)) \<and>
      mset (buy_orders (match_step b)) =
        (mset (buy_orders b) - {#pq_top (buy_orders b)#}) +
        (if quantity (pq_top (buy_orders b)) - matched_quantity b = 0 then {#}
         else {#(pq_top (buy_orders b))
                  \<lparr>quantity := quantity (pq_top (buy_orders b)) - matched_quantity b\<rparr>#}) \<and>
      mset (sell_orders (match_step b)) =
        (mset (sell_orders b) - {#pq_top (sell_orders b)#}) +
        (if quantity (pq_top (sell_orders b)) - matched_quantity b = 0 then {#}
         else {#(pq_top (sell_orders b))
                  \<lparr>quantity := quantity (pq_top (sell_orders b)) - matched_quantity b\<rparr>#}) \<and>
      position' (match_step b) = position' b + matched_quantity b \<and>
      average_price' (match_step b) =
        ddiv (dadd (dmul (average_price' b) (double_of_int (position' b + matched_quantity b)))
                   (dmul (matched_price b) (double_of_int (matched_quantity b))))
             (double_of_int (position' b + matched_quantity b + matched_quantity b)) \<and>
      realized_pnl' (match_step b) =
        dadd (realized_pnl' b)
             (dmul (dsub (matched_price b) (average_price' (match_step b)))
                   (double_of_int (matched_quantity b))) \<and>
      symbol' (match_step b) = symbol' b \<and> book_mutex (match_step b) = book_mutex b \<and>
      match_orders b = match_orders (match_step b)) \<and>
   (\<not> crossing b \<longrightarrow> match_orders b = b) \<and>
   \<not> crossing (match_orders b) \<and>
   (crossing b \<longleftrightarrow>
      buy_orders b \<noteq> [] \<and> sell_orders b \<noteq> [] \<and>
      price (pq_top (buy_orders b)) \<noteq> NaN \<and> price (pq_top (sell_orders b)) \<noteq> NaN \<and>
      \<not> dless (price (pq_top (buy_orders b))) (price (pq_top (sell_orders b))))"
proof -
  have cr: "crossing b \<longleftrightarrow>
      buy_orders b \<noteq> [] \<and> sell_orders b \<noteq> [] \<and>
      price (pq_top (buy_orders b)) \<noteq> NaN \<and> price (pq_top (sell_orders b)) \<noteq> NaN \<and>
      \<not> dless (price (pq_top (buy_orders b))) (price (pq_top (sell_orders b)))"
    by (simp add: crossing_def dge_iff)
  have stop: "\<not> crossing b \<longrightarrow> match_orders b = b"
    by (subst match_orders.simps) simp
  have mp: "matched_price b =
        ddiv (dadd (price (pq_top (buy_orders b))) (price (pq_top (sell_orders b)))) (Finite 2)"
    by (simp add: matched_price_def)
  have pos: "position' (match_step b) = position' b + matched_quantity b"
    by (simp add: match_step_def Let_def)
  have avg: "average_price' (match_step b) =
        ddiv (dadd (dmul (average_price' b) (double_of_int (position' b + matched_quantity b)))
                   (dmul (matched_price b) (double_of_int (matched_quantity b))))
             (double_of_int (position' b + matched_quantity b + matched_quantity b))"
    by (simp add: match_step_def Let_def)
  have rpl: "realized_pnl' (match_step b) =
        dadd (realized_pnl' b)
             (dmul (dsub (matched_price b) (average_price' (match_step b)))
                   (double_of_int (matched_quantity b)))"
    by (simp add: match_step_def Let_def)
  have frame: "symbol' (match_step b) = symbol' b" "book_mutex (match_step b) = book_mutex b"
    by (simp_all add: match_step_def Let_def)
  have pass:
     "(\<forall>x y. price (pq_top (buy_orders b)) = Finite x \<and>
             price (pq_top (sell_orders b)) = Finite y \<longrightarrow>
             y \<le> x \<and> matched_price b = Finite ((x + y) / 2)) \<and>
      mset (buy_orders (match_step b)) =
        (mset (buy_orders b) - {#pq_top (buy_orders b)#}) +
        (if quantity (pq_top (buy_orders b)) - matched_quantity b = 0 then {#}
         else {#(pq_top (buy_orders b))
                  \<lparr>quantity := quantity (pq_top (buy_orders b)) - matched_quantity b\<rparr>#}) \<and>
      mset (sell_orders (match_step b)) =
        (mset (sell_orders b) - {#pq_top (sell_orders b)#}) +
        (if quantity (pq_top (sell_orders b)) - matched_quantity b = 0 then {#}
         else {#(pq_top (sell_orders b))
                  \<lparr>quantity := quantity (pq_top (sell_orders b)) - matched_quantity b\<rparr>#}) \<and>
      match_orders b = match_orders (match_step b)"
    if c: "crossing b"
  proof -
    have ne: "buy_orders b \<noteq> []" "sell_orders b \<noteq> []"
      using c by (simp_all add: crossing_def)
    have num: "y \<le> x \<and> matched_price b = Finite ((x + y) / 2)"
      if "price (pq_top (buy_orders b)) = Finite x \<and> price (pq_top (sell_orders b)) = Finite y"
      for x y
      using c that by (simp add: crossing_def matched_price_def)
    have loop: "match_orders b = match_orders (match_step b)"
      using c by (subst match_orders.simps) simp
    have buys: "mset (buy_orders (match_step b)) =
        (mset (buy_orders b) - {#pq_top (buy_orders b)#}) +
        (if quantity (pq_top (buy_orders b)) - matched_quantity b = 0 then {#}
         else {#(pq_top (buy_orders b))
                  \<lparr>quantity := quantity (pq_top (buy_orders b)) - matched_quantity b\<rparr>#})"
      using fill_top_mset[OF ne(1), of "matched_quantity b"] by (simp add: match_step_def Let_def)
    have sells: "mset (sell_orders (match_step b)) =
        (mset (sell_orders b) - {#pq_top (sell_orders b)#}) +
        (if quantity (pq_top (sell_orders b)) - matched_quantity b = 0 then {#}
         else {#(pq_top (sell_orders b))
                  \<lparr>quantity := quantity (pq_top (sell_orders b)) - matched_quantity b\<rparr>#})"
      using fill_top_mset[OF ne(2), of "matched_quantity b"] by (simp add: match_step_def Let_def)
    show ?thesis
      using num buys sells loop by blast
  qed
  show ?thesis
    using pass stop match_orders_not_crossing[of b] cr matched_quantity_min[of b] mp pos avg rpl
      frame
    by blast
qed

text \<open>On the book with a buy of 100 at 100 and a sell of 50 at 95, with the position 0:
  50 are matched at 97.5, the buy order stays with 50 and the sell order is removed, the
  position is 50, the average price \<open>(0 * 50 + 97.5 * 50) / (50 + 50) = 48.75\<close> and the
  realized P\&L \<open>(97.5 - 48.75) * 50 = 2437.5\<close>.  The book with a buy at 100 and a sell
  at 110 is left as it is.\<close>

theorem match_step_fills_top_orders_witness:
  "crossing crossed_book \<and>
   matched_quantity crossed_book = 50 \<and>
   matched_price crossed_book = Finite (195 / 2) \<and>
   match_step crossed_book =
     \<lparr>symbol' = ''AAPL'', buy_orders = [order_of ''b1'' 100 50 True], sell_orders = [],
      position' = 50, average_price' = Finite (195 / 4), realized_pnl' = Finite (4875 / 2),
      book_mutex = True\<rparr> \<and>
   match_orders crossed_book = match_orders (match_step crossed_book) \<and>
   \<not> crossing resting_book \<and> match_orders resting_book = resting_book"
proof -
  have "match_orders crossed_book = match_orders (match_step crossed_book)"
    using match_step_fills_top_orders[of crossed_book] crossed_book_crossing by blast
  moreover have "match_orders resting_book = resting_book"
    using match_step_fills_top_orders[of resting_book] resting_book_not_crossing by blast
  ultimately show ?thesis
    using crossed_book_crossing crossed_book_matched match_step_crossed_book
      resting_book_not_crossing by blast
qed

section \<open>C3: the book is not left crossed\<close>

text \<open>
  C3 says that after each \<^verbatim>\<open>add_order\<close> the best bid is strictly less than the best
  ask whenever both sides are non-empty.  \<^verbatim>\<open>add_order\<close> accepts any double as a
  price, and every comparison with NaN is false.  On a new book, a buy whose price is
  NaN is followed by a buy of 1 at 100: the comparator is false for the two, so the
  order with the NaN price stays at the top of the buy queue.  Then a sell of 1 at 90
  arrives: \<^verbatim>\<open>buy.price >= sell.price\<close> is false for the NaN, nothing is matched, and
  the book rests with a buy at 100 and a sell at 90.  The best bid reads NaN and the
  best ask 90, and NaN is not less than 90.
\<close>

theorem nan_price_leaves_book_crossed_counterexample:
  "(case add_orders nan_orders (new_OrderBook ''AAPL'') of
      None \<Rightarrow> False
    | Some b \<Rightarrow>
        map price (buy_orders b) = [NaN, Finite 100] \<and>
        map price (sell_orders b) = [Finite 90] \<and>
        position' b = 0 \<and>
        get_best_bid b = Some NaN \<and> get_best_ask b = Some (Finite 90) \<and>
        \<not> dless NaN (Finite 90) \<and>
        dge (Finite 100) (Finite 90))"
  by code_simp

text \<open>
  C3 as amended, for prices that are not NaN.  A call of \<^verbatim>\<open>add_order\<close> with such a
  price, on a book whose lock is free and whose resting orders have such prices,
  returns with the lock free again, and whenever both sides of the resulting book are
  non-empty the best bid is strictly less than the best ask.  Every sequence of calls
  with such prices on a new book returns; in the resulting book the best bid is
  strictly less than the best ask whenever both sides are non-empty, and the price of
  every resting buy order is strictly less than the price of every resting sell order.
\<close>

theorem add_order_leaves_book_uncrossed:
  assumes "\<not> book_mutex b" and "no_nan_prices b" and "price order \<noteq> NaN"
    and "\<forall>x\<in>set orders. price x \<noteq> NaN"
  shows "(\<exists>b'. add_order order b = Some b' \<and> \<not> book_mutex b' \<and>
           (\<exists>bid ask. get_best_bid b' = Some bid \<and> get_best_ask b' = Some ask \<and>
              (buy_orders b' \<noteq> [] \<and> sell_orders b' \<noteq> [] \<longrightarrow> dless bid ask))) \<and>
         (\<exists>c. add_orders orders (new_OrderBook s) = Some c \<and>
            (\<exists>bid ask. get_best_bid c = Some bid \<and> get_best_ask c = Some ask \<and>
               (buy_orders c \<noteq> [] \<and> sell_orders c \<noteq> [] \<longrightarrow> dless bid ask)) \<and>
            (\<forall>x\<in>set (buy_orders c). \<forall>y\<in>set (sell_orders c). dless (price x) (price y)))"
proof -
  have best: "\<exists>bid ask. get_best_bid c = Some bid \<and> get_best_ask c = Some ask \<and>
      (buy_orders c \<noteq> [] \<and> sell_orders c \<noteq> [] \<longrightarrow> dless bid ask)"
    if c: "\<not> book_mutex c" "\<not> crossing c" "no_nan_prices c" for c
  proof -
    have "dless (price (pq_top (buy_orders c))) (price (pq_top (sell_orders c)))"
      if ne: "buy_orders c \<noteq> []" "sell_orders c \<noteq> []"
    proof -
      have "pq_top (buy_orders c) \<in> set (buy_orders c)"
        and "pq_top (sell_orders c) \<in> set (sell_orders c)"
        using ne by (simp_all add: pq_top_def)
      then have "price (pq_top (buy_orders c)) \<noteq> NaN" "price (pq_top (sell_orders c)) \<noteq> NaN"
        using c(3) by (simp_all add: no_nan_prices_def)
      moreover have "\<not> dge (price (pq_top (buy_orders c))) (price (pq_top (sell_orders c)))"
        using c(2) ne by (simp add: crossing_def)
      ultimately show ?thesis by (rule not_dge_dless)
    qed
    then show ?thesis
      using c(1) by (simp add: get_best_bid_def get_best_ask_def)
  qed
  obtain b' where b': "add_order order b = Some b'" "\<not> book_mutex b'" "\<not> crossing b'"
    using add_order_Some[OF assms(1)] by blast
  have "no_nan_prices b'" using no_nan_prices_add_order[OF assms(2,3) b'(1)] .
  then have one: "\<exists>b'. add_order order b = Some b' \<and> \<not> book_mutex b' \<and>
           (\<exists>bid ask. get_best_bid b' = Some bid \<and> get_best_ask b' = Some ask \<and>
              (buy_orders b' \<noteq> [] \<and> sell_orders b' \<noteq> [] \<longrightarrow> dless bid ask))"
    using b' best[of b'] by blast
  have m0: "\<not> book_mutex (new_OrderBook s)" and c0: "\<not> crossing (new_OrderBook s)"
    by (simp_all add: new_OrderBook_def crossing_def)
  obtain c where c: "add_orders orders (new_OrderBook s) = Some c" "book_inv c" "\<not> book_mutex c"
    using add_orders_inv[OF book_inv_new m0 assms(4)] by blast
  have nc: "\<not> crossing c" using add_orders_not_crossing[OF c0 c(1)] .
  have "no_nan_prices c" using c(2) by (simp add: book_inv_def no_nan_prices_def)
  then have two: "\<exists>bid ask. get_best_bid c = Some bid \<and> get_best_ask c = Some ask \<and>
      (buy_orders c \<noteq> [] \<and> sell_orders c \<noteq> [] \<longrightarrow> dless bid ask)"
    using best[OF c(3) nc] by blast
  have "\<forall>x\<in>set (buy_orders c). \<forall>y\<in>set (sell_orders c). dless (price x) (price y)"
    using book_inv_uncrossed[OF c(2) nc] by blast
  then show ?thesis using one two c(1) by blast
qed

text \<open>A sell of 50 at 95 arrives at the book with a buy of 100 at 100 and a sell of 10
  at 110: it is matched in full, and the book is left with the best bid 100 and the best
  ask 110.  After the five orders at different prices the buy prices are 99 and 98 and
  the sell prices 100, 101 and 102.\<close>

theorem add_order_leaves_book_uncrossed_witness:
  "\<not> book_mutex resting_book \<and> no_nan_prices resting_book \<and>
   price (order_of ''s1'' 95 50 False) = Finite 95 \<and>
   map price spread_orders = [Finite 101, Finite 100, Finite 102, Finite 98, Finite 99] \<and>
   (\<exists>b'. add_order (order_of ''s1'' 95 50 False) resting_book = Some b' \<and>
      buy_orders b' \<noteq> [] \<and> sell_orders b' \<noteq> [] \<and>
      get_best_bid b' = Some (Finite 100) \<and> get_best_ask b' = Some (Finite 110) \<and>
      dless (Finite 100) (Finite 110)) \<and>
   (\<exists>c. add_orders spread_orders (new_OrderBook ''AAPL'') = Some c \<and>
      map price (buy_orders c) = [Finite 99, Finite 98] \<and>
      map price (sell_orders c) = [Finite 100, Finite 101, Finite 102] \<and>
      get_best_bid c = Some (Finite 99) \<and> get_best_ask c = Some (Finite 100))"
proof -
  have m: "\<not> book_mutex resting_book" and n: "no_nan_prices resting_book"
    using resting_book_prices by simp_all
  have p: "price (order_of ''s1'' 95 50 False) \<noteq> NaN" by (simp add: order_of_def)
  have sp: "map price spread_orders = [Finite 101, Finite 100, Finite 102, Finite 98, Finite 99]"
    by (simp add: spread_orders_def order_of_def)
  show ?thesis
    using add_order_leaves_book_uncrossed[OF m n p spread_orders_prices, of "''AAPL''"] m n sp
    by (simp add: add_order_resting_book add_orders_spread_orders get_best_bid_def
        get_best_ask_def pq_top_def) (simp add: order_of_def)
qed

section \<open>C4: when the realized P\&L changes\<close>

text \<open>
  C4 says that the realized P\&L changes only on a fill that reduces an existing
  position, and not on a fill that opens or increases one.  In the code every match
  adds to the position and adds \<open>(matched_price - average_price) * matched_quantity\<close>
  to the realized P\&L.  On a new book, a buy of 10 at 100 leaves it at 0; the sell of
  10 at 100 is the first match, which opens the position, and the realized P\&L becomes
  500; a buy and a sell of 10 at 200 are a second match, which increases the position
  from 10 to 20, and the realized P\&L becomes 1500.
\<close>

theorem C4_realized_pnl_on_opening_fills:
  "map_option (\<lambda>b. (position' b, realized_pnl' b))
     (add_orders [order_of ''b1'' 100 10 True] (new_OrderBook ''AAPL'')) = Some (0, Finite 0) \<and>
   map_option (\<lambda>b. (position' b, realized_pnl' b))
     (add_orders [order_of ''b1'' 100 10 True, order_of ''s1'' 100 10 False]
        (new_OrderBook ''AAPL'')) = Some (10, Finite 500) \<and>
   map_option (\<lambda>b. (position' b, realized_pnl' b))
     (add_orders [order_of ''b1'' 100 10 True, order_of ''s1'' 100 10 False,
                  order_of ''b2'' 200 10 True, order_of ''s2'' 200 10 False]
        (new_OrderBook ''AAPL'')) = Some (20, Finite 1500)"
  by code_simp

section \<open>C5: trade notifications\<close>

text \<open>
  C5 says that every match emits one Trade event that is delivered to the trade
  subscribers of the symbol.  The code keeps the registry \<^verbatim>\<open>trade_callbacks\<close>, but
  \<^verbatim>\<open>match_orders\<close> builds no \<^verbatim>\<open>Trade\<close> and no function of the engine calls a trade
  callback: the whole effect of \<^verbatim>\<open>submit_order\<close> is the returned id and the new state
  of the engine.  In the example calls a callback subscribes to the trades of AAPL and
  two crossing orders are submitted: the match takes place (the position reads 10), and
  the callback is still in the registry, which is all that ever happens to it.
\<close>

theorem C5_match_without_trade_event:
  "(case engine_run example_calls (\<lambda>k. 0, new_ExecutionEngine) of
      None \<Rightarrow> False
    | Some (g, e) \<Rightarrow>
        engine_get_position e ''AAPL'' = Some 10 \<and>
        map_option buy_orders (order_books e ''AAPL'') = Some [] \<and>
        map_option sell_orders (order_books e ''AAPL'') = Some [] \<and>
        trade_callbacks e ''AAPL'' = Some [7])"
  by code_simp

section \<open>C6: the order of service among equal prices\<close>

text \<open>
  C6 says that resting orders of equal price are served in the order of their
  submission.  \<^verbatim>\<open>Order\<close> has no sequence number and \<^verbatim>\<open>OrderCompare\<close> reads the price
  only, so the order of service among equal prices is the one the heap happens to have.
  Four sell orders A, B, C, D of 1 at 100 are submitted in this order.  A buy of 1 at
  100 fills A, and the heap is then C, B, D.  A buy of 2 at 100 fills A and then C: the
  orders left are B and D with their full quantity, so C, submitted third, is filled
  before B, submitted second, receives any quantity.
\<close>

theorem time_priority_counterexample:
  "map_option sell_orders
     (add_orders (equal_price_sells @ [order_of ''X'' 100 1 True]) (new_OrderBook ''AAPL''))
     = Some [order_of ''C'' 100 1 False, order_of ''B'' 100 1 False, order_of ''D'' 100 1 False] \<and>
   map_option sell_orders
     (add_orders (equal_price_sells @ [order_of ''X'' 100 2 True]) (new_OrderBook ''AAPL''))
     = Some [order_of ''B'' 100 1 False, order_of ''D'' 100 1 False]"
  by code_simp

text \<open>
  C6 as amended: matching serves by price only, for prices that are not NaN.  After any
  sequence of \<^verbatim>\<open>add_order\<close> calls with such prices on a new book (every such sequence
  returns), the order at the top of the buy queue, which is the one matched next, has
  the highest price of all resting buy orders, and the order at the top of the sell
  queue has the lowest price of all resting sell orders.  Nothing is said about the
  order of service among orders of equal price.
\<close>

theorem matching_serves_best_price:
  assumes "\<forall>x\<in>set orders. price x \<noteq> NaN"
  shows "\<exists>b. add_orders orders (new_OrderBook s) = Some b \<and>
     (\<forall>x\<in>set (buy_orders b). dge (price (pq_top (buy_orders b))) (price x)) \<and>
     (\<forall>x\<in>set (sell_orders b). dge (price x) (price (pq_top (sell_orders b))))"
proof -
  have "\<not> book_mutex (new_OrderBook s)" by (simp add: new_OrderBook_def)
  then obtain b where "add_orders orders (new_OrderBook s) = Some b" "book_inv b"
    using add_orders_inv[OF book_inv_new _ assms, of s] by blast
  then show ?thesis using book_inv_top[of b] by blast
qed

text \<open>Sells at 101, 100 and 102 and buys at 98 and 99: the tops are the sell at 100
  and the buy at 99.\<close>

theorem matching_serves_best_price_witness:
  "map price spread_orders = [Finite 101, Finite 100, Finite 102, Finite 98, Finite 99] \<and>
   (\<exists>b. add_orders spread_orders (new_OrderBook ''AAPL'') = Some b \<and>
      map price (buy_orders b) = [Finite 99, Finite 98] \<and>
      map price (sell_orders b) = [Finite 100, Finite 101, Finite 102] \<and>
      price (pq_top (buy_orders b)) = Finite 99 \<and> price (pq_top (sell_orders b)) = Finite 100)"
  using matching_serves_best_price[OF spread_orders_prices, of "''AAPL''"]
  by (simp add: add_orders_spread_orders pq_top_def) (simp add: order_of_def spread_orders_def)

section \<open>C7: the unrealized P\&L\<close>

text \<open>
  C7 says that \<^verbatim>\<open>unrealized_pnl\<close> returns the position times the difference of the
  mid price and the average price when both sides of the book are non-empty, and 0 when
  a side is empty.  \<^verbatim>\<open>get_unrealized_pnl\<close> takes \<^verbatim>\<open>book_mutex\<close> (line 131) and then
  calls \<^verbatim>\<open>get_best_bid\<close> (line 132), which takes the same mutex again (line 111): on no
  book does the call return a value.  This holds for the book with a buy at 100 and a
  sell at 110 resting, for the book left by a buy of 20 at 100 and a sell of 10 at 90,
  whose sell side is empty and whose position is 10, and through the engine for the
  symbol of the example calls, which has a book with the position 10.
\<close>

theorem C7_unrealized_pnl_does_not_return:
  "get_unrealized_pnl b = None \<and>
   buy_orders resting_book \<noteq> [] \<and> sell_orders resting_book \<noteq> [] \<and>
   get_position resting_book = Some 0 \<and> get_unrealized_pnl resting_book = None \<and>
   add_orders positive_orders (new_OrderBook ''AAPL'') = Some one_sided_book \<and>
   sell_orders one_sided_book = [] \<and>
   get_position one_sided_book = Some 10 \<and> get_unrealized_pnl one_sided_book = None \<and>
   (case engine_run example_calls (\<lambda>k. 0, new_ExecutionEngine) of
      None \<Rightarrow> False
    | Some (g, e) \<Rightarrow>
        engine_get_position e ''AAPL'' = Some 10 \<and> engine_get_unrealized_pnl e ''AAPL'' = None)"
proof -
  have "get_unrealized_pnl b = None"
    by (simp add: get_unrealized_pnl_def get_best_bid_def Let_def)
  moreover have
    "buy_orders resting_book \<noteq> [] \<and> sell_orders resting_book \<noteq> [] \<and>
     get_position resting_book = Some 0 \<and> get_unrealized_pnl resting_book = None \<and>
     add_orders positive_orders (new_OrderBook ''AAPL'') = Some one_sided_book \<and>
     sell_orders one_sided_book = [] \<and>
     get_position one_sided_book = Some 10 \<and> get_unrealized_pnl one_sided_book = None \<and>
     (case engine_run example_calls (\<lambda>k. 0, new_ExecutionEngine) of
        None \<Rightarrow> False
      | Some (g, e) \<Rightarrow>
          engine_get_position e ''AAPL'' = Some 10 \<and> engine_get_unrealized_pnl e ''AAPL'' = None)"
    by code_simp
  ultimately show ?thesis by blast
qed

section \<open>C8: orders are not validated\<close>

text \<open>
  C8 says that an order with a non-positive price or quantity is rejected with an
  \<^verbatim>\<open>InvalidOrder\<close> error and never enters the book.  \<^verbatim>\<open>submit_order\<close> and
  \<^verbatim>\<open>add_order\<close> check nothing and have no error result: a buy order with the price
  -5 and the quantity -3, submitted to a new engine whose generator draws zeros, gets
  its id and rests in the buy queue of the book of its symbol.
\<close>

theorem malformed_order_enters_book_counterexample:
  "(case submit_order malformed_order (\<lambda>k. 0) (new_ExecutionEngine :: (unit, nat) ExecutionEngine) of
      None \<Rightarrow> False
    | Some (oid, g', e') \<Rightarrow>
        oid = ''00000000-0000-0000-0000-000000000000'' \<and>
        map_option buy_orders (order_books e' ''AAPL'') =
          Some [order_of ''00000000-0000-0000-0000-000000000000'' (- 5) (- 3) True])"
  by code_simp

text \<open>
  C8 as amended: \<^verbatim>\<open>submit_order\<close> accepts every order, whatever its price and
  quantity.  On an engine none of whose locks is held, and whatever the book of the
  order's symbol holds (a new book if there is none), the call returns the generated
  id, and the book of the symbol afterwards is the result of the matching loop on the
  book before with the order, carrying the id, pushed onto the queue of its side; the
  other books and the registries are unchanged.  The pushed queue holds the order
  besides the orders it held, and when the opposite side was empty before the call
  (nothing to match against) the order is among the resting orders of its side
  afterwards.
\<close>

theorem submit_order_accepts_every_order:
  assumes "unlocked e"
  shows "\<exists>g' e' book order' pushed book'.
     book = (case order_books e (symbol order) of
               None \<Rightarrow> new_OrderBook (symbol order) | Some b \<Rightarrow> b) \<and>
     order' = order\<lparr>order_id := fst (generate_order_id g)\<rparr> \<and>
     pushed = (if is_buy order
               then book\<lparr>book_mutex := True,
                         buy_orders := pq_push OrderCompare (buy_orders book) order'\<rparr>
               else book\<lparr>book_mutex := True,
                         sell_orders := pq_push OrderCompare (sell_orders book) order'\<rparr>) \<and>
     book' = (match_orders pushed)\<lparr>book_mutex := False\<rparr> \<and>
     submit_order order g e = Some (fst (generate_order_id g), g', e') \<and>
     order_books e' = (order_books e)(symbol order \<mapsto> book') \<and>
     market_data_callbacks e' = market_data_callbacks e \<and>
     trade_callbacks e' = trade_callbacks e \<and>
     mset (if is_buy order then buy_orders pushed else sell_orders pushed) =
       add_mset order' (mset (if is_buy order then buy_orders book else sell_orders book)) \<and>
     (if is_buy order then sell_orders pushed else buy_orders pushed) =
       (if is_buy order then sell_orders book else buy_orders book) \<and>
     ((if is_buy order then sell_orders book else buy_orders book) = [] \<longrightarrow>
        order' \<in> set (if is_buy order then buy_orders book' else sell_orders book'))"
proof -
  let ?book = "case order_books e (symbol order) of None \<Rightarrow> new_OrderBook (symbol order) | Some b \<Rightarrow> b"
  let ?o = "order\<lparr>order_id := fst (generate_order_id g)\<rparr>"
  let ?pushed = "if is_buy order
               then ?book\<lparr>book_mutex := True,
                         buy_orders := pq_push OrderCompare (buy_orders ?book) ?o\<rparr>
               else ?book\<lparr>book_mutex := True,
                         sell_orders := pq_push OrderCompare (sell_orders ?book) ?o\<rparr>"
  obtain g' e' book' where s:
    "submit_order order g e = Some (fst (generate_order_id g), g', e')"
    "add_order ?o ?book = Some book'"
    "order_books e' = (order_books e)(symbol order \<mapsto> book')"
    "market_data_callbacks e' = market_data_callbacks e"
    "trade_callbacks e' = trade_callbacks e"
    using submit_order_unlocked[OF assms, of order g] by blast
  have m: "\<not> book_mutex ?book" using unlocked_book[OF assms] .
  have b': "book' = (match_orders ?pushed)\<lparr>book_mutex := False\<rparr>"
    using s(2) m by (auto simp: add_order_def Let_def)
  have ms: "mset (if is_buy order then buy_orders ?pushed else sell_orders ?pushed) =
       add_mset ?o (mset (if is_buy order then buy_orders ?book else sell_orders ?book))"
    by (simp add: pq_push_mset)
  have other: "(if is_buy order then sell_orders ?pushed else buy_orders ?pushed) =
       (if is_buy order then sell_orders ?book else buy_orders ?book)"
    by simp
  have rests: "(if is_buy order then sell_orders ?book else buy_orders ?book) = [] \<longrightarrow>
      ?o \<in> set (if is_buy order then buy_orders book' else sell_orders book')"
    using add_order_rests[OF s(2)] by simp
  show ?thesis
    using s(1) s(3) s(4) s(5) b' ms other rests by blast
qed

text \<open>A sell of 50 at 95 is submitted to the engine whose book of AAPL has a buy of 100
  at 100 and a sell of 10 at 110 resting: the call returns the id, 50 are matched
  against the resting buy, and the book is left with the buy of 50 and the sell of
  10.\<close>

theorem submit_order_accepts_every_order_witness:
  "unlocked resting_engine \<and>
   map_option buy_orders (order_books resting_engine ''AAPL'') = Some [order_of ''b1'' 100 100 True] \<and>
   (\<exists>g' e'. submit_order (order_of [] 95 50 False) (\<lambda>k. 0) resting_engine
            = Some (''00000000-0000-0000-0000-000000000000'', g', e') \<and>
      order_books e' ''AAPL'' =
          Some \<lparr>symbol' = ''AAPL'',
                buy_orders = [order_of ''b1'' 100 50 True],
                sell_orders = [order_of ''s0'' 110 10 False],
                position' = 50, average_price' = Finite (195 / 4),
                realized_pnl' = Finite (4875 / 2), book_mutex = False\<rparr>)"
proof -
  obtain g' e' where s: "submit_order (order_of [] 95 50 False) (\<lambda>k. 0) resting_engine
      = Some (fst (generate_order_id (\<lambda>k. 0)), g', e')"
    using submit_order_accepts_every_order[OF unlocked_resting_engine,
        of "order_of [] 95 50 False" "\<lambda>k. 0"]
    by blast
  have r: "map_option buy_orders (order_books resting_engine ''AAPL'')
      = Some [order_of ''b1'' 100 100 True]"
    by (simp add: resting_engine_def resting_book_def)
  show ?thesis
    using submit_resting_engine unlocked_resting_engine r unfolding s by auto
qed

section \<open>C9: queries for a symbol without orders\<close>

text \<open>
  C9: every sequence of calls (submissions and registry operations) on a new engine
  returns, and for a symbol that is not the symbol of any order submitted in the
  sequence the four read queries return 0.
\<close>

theorem unknown_symbol_queries_return_zero:
  assumes "s \<notin> submitted_symbols calls"
  shows "\<exists>g' e. engine_run calls (g, new_ExecutionEngine) = Some (g', e) \<and>
     engine_get_position e s = Some 0 \<and> engine_get_average_price e s = Some (Finite 0) \<and>
     engine_get_unrealized_pnl e s = Some (Finite 0) \<and>
     engine_get_realized_pnl e s = Some (Finite 0)"
proof -
  obtain g' e where r: "engine_run calls (g, new_ExecutionEngine) = Some (g', e)" "unlocked e"
    "dom (order_books e) = dom (order_books (new_ExecutionEngine :: ('a, 'b) ExecutionEngine)) \<union> submitted_symbols calls"
    using engine_run_unlocked[OF unlocked_new, of calls g] by blast
  have "order_books e s = None"
    using r(3) assms by (auto simp: new_ExecutionEngine_def)
  moreover have "\<not> engine_mutex e" using r(2) by (simp add: unlocked_def)
  ultimately show ?thesis
    using r(1) by (simp add: engine_get_position_def engine_get_average_price_def
        engine_get_unrealized_pnl_def engine_get_realized_pnl_def)
qed

text \<open>After the example calls AAPL has a book (its position reads 10) and MSFT has
  none.\<close>

theorem unknown_symbol_queries_return_zero_witness:
  "''MSFT'' \<notin> submitted_symbols example_calls \<and>
   (\<exists>g' e. engine_run example_calls (\<lambda>k. 0, new_ExecutionEngine) = Some (g', e) \<and>
      engine_get_position e ''AAPL'' = Some 10 \<and>
      engine_get_position e ''MSFT'' = Some 0 \<and>
      engine_get_average_price e ''MSFT'' = Some (Finite 0) \<and>
      engine_get_unrealized_pnl e ''MSFT'' = Some (Finite 0) \<and>
      engine_get_realized_pnl e ''MSFT'' = Some (Finite 0))"
proof -
  have n: "''MSFT'' \<notin> submitted_symbols example_calls"
    by (simp add: example_calls_def order_of_def)
  show ?thesis
    using unknown_symbol_queries_return_zero[OF n, of "\<lambda>k. 0"] example_calls_position n
    by auto
qed

section \<open>C10: the position counts matched volume\<close>

text \<open>
  C10 says that across every sequence of \<^verbatim>\<open>add_order\<close> calls the position is never
  negative and never decreases.  \<^verbatim>\<open>add_order\<close> accepts an order with a negative
  quantity: with a buy of -5 at 100 and a sell of 10 at 100 the matched quantity is
  \<open>min (-5) 10 = -5\<close>, which line 97 adds to the position, and the position reads -5.
\<close>

theorem negative_quantity_counterexample:
  "map_option (\<lambda>b. sint (position' b))
     (add_orders [order_of ''b1'' 100 (- 5) True, order_of ''s1'' 100 10 False]
        (new_OrderBook ''AAPL'')) = Some (- 5)"
  by code_simp

text \<open>
  C10 as amended: when every order submitted has a positive quantity and the buy
  quantities submitted add up to less than \<open>2^31\<close> (so that the 32-bit position
  cannot overflow), every call of the sequence returns, the position read before the
  last call is not negative and the position read after it is not smaller.  Each pass
  of the matching loop adds the matched quantity to the position, whichever order
  arrived last.
\<close>

theorem position_nonnegative_nondecreasing:
  assumes "\<forall>x\<in>set (orders @ [order]). 0 < sint (quantity x)"
    and "buy_volume (orders @ [order]) < 2 ^ 31"
  shows "\<exists>b b'. add_orders orders (new_OrderBook s) = Some b \<and> add_order order b = Some b' \<and>
     get_position b = Some (position' b) \<and> get_position b' = Some (position' b') \<and>
     0 \<le> sint (position' b) \<and> sint (position' b) \<le> sint (position' b') \<and>
     position' (match_step c) = position' c + matched_quantity c"
proof -
  have qs: "\<forall>x\<in>set orders. 0 < sint (quantity x)" and q: "0 < sint (quantity order)"
    using assms(1) by simp_all
  let ?d = "if is_buy order then sint (quantity order) else 0"
  have d0: "0 \<le> ?d" using q by simp
  have B: "buy_volume orders + ?d < 2 ^ 31" using assms(2) by (simp add: buy_volume_append)
  have B0: "0 + buy_volume orders < 2 ^ 31" using B d0 by linarith
  have m0: "\<not> book_mutex (new_OrderBook s)" by (simp add: new_OrderBook_def)
  obtain b where b: "add_orders orders (new_OrderBook s) = Some b" "\<not> book_mutex b"
    "volume_inv (0 + buy_volume orders) b"
    using add_orders_volume[OF volume_inv_new m0 qs B0] by blast
  have B1: "(0 + buy_volume orders) + ?d < 2 ^ 31" using B by simp
  obtain b' where b': "add_order order b = Some b'" "\<not> book_mutex b'"
    "sint (position' b) \<le> sint (position' b')"
    using add_order_volume[OF b(3) b(2) q B1] by blast
  have "0 \<le> sint (position' b)" using b(3) by (simp add: volume_inv_def)
  moreover have "position' (match_step c) = position' c + matched_quantity c"
    by (simp add: match_step_def Let_def)
  ultimately show ?thesis
    using b(1) b(2) b' by (auto simp: get_position_def)
qed

text \<open>A buy of 20 at 100 and a sell of 10 at 90, then a sell of 5 at 95: the position
  reads 10 before the last call and 15 after it.\<close>

theorem position_nonnegative_nondecreasing_witness:
  "buy_volume (positive_orders @ [order_of ''s2'' 95 5 False]) = 20 \<and>
   (\<exists>b b'. add_orders positive_orders (new_OrderBook ''AAPL'') = Some b \<and>
      add_order (order_of ''s2'' 95 5 False) b = Some b' \<and>
      sint (position' b) = 10 \<and> sint (position' b') = 15)"
proof -
  have v: "buy_volume (positive_orders @ [order_of ''s2'' 95 5 False]) < 2 ^ 31"
    by (simp add: positive_orders_buy_volume)
  obtain b b' where r: "add_orders positive_orders (new_OrderBook ''AAPL'') = Some b"
    "add_order (order_of ''s2'' 95 5 False) b = Some b'"
    using position_nonnegative_nondecreasing[OF positive_orders_quantities v, of "''AAPL''"]
    by blast
  have b: "b = one_sided_book" using r(1) add_orders_positive_orders by simp
  have "sint (position' b') = 15" using r(2) add_order_one_sided_book unfolding b by simp
  moreover have "sint (position' b) = 10" unfolding b by (simp add: one_sided_book_def)
  ultimately show ?thesis using r positive_orders_buy_volume by blast
qed

end
